theory Spec2Isabelle
  imports Main "HOL-Library.List_Lexorder"
begin

unbundle bit_operations_syntax

section \<open>The reserved-name tables of \<open>generate.js\<close>\<close>

text \<open>
  \<open>generate.js\<close> serialises the reserved names twice: \<open>generateRaw\<close> writes a table
  keyed by the name bytes and \<open>generateRawHash\<close> a table keyed by a 32-byte hash. Each is
  read back by a class \<open>Reserved\<close> (one per table) that binary-searches the index.

  Conventions of the embedding.
  \<^item> A \<open>Buffer\<close> is a list of bytes, each a natural number below 256.
  \<^item> A JavaScript string is a \<open>string\<close>: its characters are code units below 256, which
    covers the ASCII names and targets the tables hold. \<open>length\<close> is the string's
    \<open>length\<close>.
  \<^item> A JavaScript number holding a non-negative integer is a \<open>nat\<close>; where the source
    computes in double precision (\<open>readU64\<close>) the rounding is written out.
  \<^item> A \<open>throw\<close> is a value \<open>Inl e\<close>; a loop that need not terminate returns an
    \<open>option\<close>, \<open>None\<close> meaning that it runs forever.
\<close>

subsection \<open>Errors and sequencing\<close>

datatype error =
    AssertionError   \<comment> \<open>a failed \<open>assert(...)\<close>\<close>
  | RangeError       \<comment> \<open>\<open>readUInt32LE\<close>/\<open>writeUInt32LE\<close> outside the buffer\<close>
  | EncodingError    \<comment> \<open>the writer of \<open>bufio\<close>: a write beyond its capacity\<close>
  | TypeError        \<comment> \<open>the writer of \<open>bufio\<close>: the number is not a safe integer\<close>
  | OutOfBounds      \<comment> \<open>only in checked mode: an indexed read outside the buffer\<close>

definition seq :: "error + 'a \<Rightarrow> ('a \<Rightarrow> error + 'b) \<Rightarrow> error + 'b" where
  "seq m f = (case m of Inl e \<Rightarrow> Inl e | Inr x \<Rightarrow> f x)"

type_synonym buffer = "nat list"

subsection \<open>Reading a buffer\<close>

text \<open>
  \<open>data[i]\<close> on a \<open>Buffer\<close> is the byte at \<open>i\<close>, or \<open>undefined\<close> (here \<open>None\<close>) outside
  the buffer; it never throws. To state that a lookup stays inside the buffer, the name
  table's reader takes a flag \<open>chk\<close>: with \<open>chk = False\<close> it is the source as it runs,
  with \<open>chk = True\<close> every indexed read outside the buffer is the fault \<open>OutOfBounds\<close>.
\<close>

definition at :: "buffer \<Rightarrow> nat \<Rightarrow> nat option" where
  "at d i = (if i < length d then Some (d ! i) else None)"

definition elem :: "bool \<Rightarrow> buffer \<Rightarrow> nat \<Rightarrow> error + nat option" where
  "elem chk d i = (if chk \<and> length d \<le> i then Inl OutOfBounds else Inr (at d i))"

text \<open>\<open>x < y\<close> and \<open>x > y\<close> on numbers are false as soon as an operand is \<open>undefined\<close>.\<close>

definition js_lt :: "nat option \<Rightarrow> nat option \<Rightarrow> bool" where
  "js_lt x y = (case (x, y) of (Some a, Some b) \<Rightarrow> a < b | _ \<Rightarrow> False)"

definition js_gt :: "nat option \<Rightarrow> nat option \<Rightarrow> bool" where
  "js_gt x y = (case (x, y) of (Some a, Some b) \<Rightarrow> b < a | _ \<Rightarrow> False)"

text \<open>\<open>flags & m\<close>: \<open>undefined\<close> converts to 0.\<close>

definition js_and :: "nat option \<Rightarrow> nat \<Rightarrow> nat" where
  "js_and x m = (case x of None \<Rightarrow> 0 | Some f \<Rightarrow> f AND m)"

text \<open>\<open>data.readUInt32LE(off)\<close> throws a \<open>RangeError\<close> unless the four bytes are inside.\<close>

definition readUInt32LE :: "buffer \<Rightarrow> nat \<Rightarrow> error + nat" where
  "readUInt32LE d off =
     (if off + 4 \<le> length d
      then Inr (d ! off + 256 * d ! (off + 1) + 65536 * d ! (off + 2) + 16777216 * d ! (off + 3))
      else Inl RangeError)"

definition readU32 :: "buffer \<Rightarrow> nat \<Rightarrow> error + nat" where
  "readU32 d off = readUInt32LE d off"

text \<open>
  JavaScript numbers are IEEE doubles. \<open>to_double n\<close> is the double nearest to the
  natural number \<open>n\<close> (ties to the even significand): numbers below \<open>2^53\<close> are exact,
  a longer one keeps its 53 leading bits. \<open>hi * 0x100000000 + lo\<close> is one rounded
  multiplication followed by one rounded addition.
\<close>

fun bitlen :: "nat \<Rightarrow> nat" where
  "bitlen n = (if n = 0 then 0 else Suc (bitlen (n div 2)))"

declare bitlen.simps [simp del]

definition to_double :: "nat \<Rightarrow> nat" where
  "to_double n =
     (if n < 2 ^ 53 then n
      else let e = bitlen n - 53; q = n div 2 ^ e; r = n mod 2 ^ e
           in (if 2 ^ e < 2 * r \<or> (2 * r = 2 ^ e \<and> odd q) then q + 1 else q) * 2 ^ e)"

definition js_mul :: "nat \<Rightarrow> nat \<Rightarrow> nat" where
  "js_mul a b = to_double (a * b)"

definition js_add :: "nat \<Rightarrow> nat \<Rightarrow> nat" where
  "js_add a b = to_double (a + b)"

definition readU64 :: "buffer \<Rightarrow> nat \<Rightarrow> error + nat" where
  "readU64 d off =
     seq (readUInt32LE d off) (\<lambda>lo.
     seq (readUInt32LE d (off + 4)) (\<lambda>hi.
     Inr (js_add (js_mul hi 4294967296) lo)))"

text \<open>
  \<open>data.toString('ascii', start, end)\<close>: the bytes from \<open>start\<close> up to \<open>end\<close>, both
  clamped to the buffer, each with its top bit cleared.
\<close>

definition toString_ascii :: "buffer \<Rightarrow> nat \<Rightarrow> nat \<Rightarrow> string" where
  "toString_ascii d start endi = map (\<lambda>b. char_of (b mod 128)) (take (endi - start) (drop start d))"

text \<open>\<open>Buffer.from(name, 'ascii')\<close>: one byte per code unit.\<close>

definition Buffer_from :: "string \<Rightarrow> buffer" where
  "Buffer_from s = map of_char s"

subsection \<open>The reader of the name table (class \<open>Reserved\<close>, first closure)\<close>

record reserved =
  data :: buffer
  sizeR :: nat          \<comment> \<open>\<open>this.size\<close>\<close>
  nameSize :: nat
  nameValue :: nat
  rootValue :: nat
  offset :: nat
  indexSize :: nat

text \<open>
  The constructor reads the header and checks nothing else. \<open>data[4]\<close> is
  \<open>undefined\<close> only in a buffer of four bytes, where the next \<open>readU64\<close> throws.
\<close>

definition Reserved :: "buffer \<Rightarrow> error + reserved" where
  "Reserved d =
     seq (readU32 d 0) (\<lambda>sz.
     let ns = at d 4 in
     seq (readU64 d 5) (\<lambda>nv.
     seq (readU64 d 13) (\<lambda>rv.
     (case ns of
        None \<Rightarrow> Inl RangeError
      | Some n \<Rightarrow> Inr \<lparr>data = d, sizeR = sz, nameSize = n, nameValue = nv, rootValue = rv,
                      offset = 21, indexSize = 1 + n + 4\<rparr>))))"

text \<open>The \<open>for\<close> loop of \<open>_compare\<close>; \<open>None\<close> when it falls through.\<close>

function compare_loop :: "bool \<Rightarrow> buffer \<Rightarrow> buffer \<Rightarrow> nat \<Rightarrow> nat \<Rightarrow> nat \<Rightarrow> error + int option" where
  "compare_loop chk a b off len i =
     (if i < len then
        seq (elem chk a (off + i)) (\<lambda>x.
        seq (elem chk b i) (\<lambda>y.
          if js_lt x y then Inr (Some (- 1))
          else if js_gt x y then Inr (Some 1)
          else compare_loop chk a b off len (i + 1)))
      else Inr None)"
  by pat_completeness auto
termination
  by (relation "measure (\<lambda>(chk, a, b, off, len, i). len - i)") auto

declare compare_loop.simps [simp del]

definition Reserved_compare :: "bool \<Rightarrow> reserved \<Rightarrow> buffer \<Rightarrow> nat \<Rightarrow> error + int" where
  "Reserved_compare chk t b off =
     (let a = data t in
      seq (elem chk a (off - 1)) (\<lambda>alen.
      let blen = Some (length b);
          len = (case alen of
                   Some al \<Rightarrow> if al < length b then al else length b
                 | None \<Rightarrow> length b) in
      seq (compare_loop chk a b off len 0) (\<lambda>r.
        case r of
          Some c \<Rightarrow> Inr c
        | None \<Rightarrow>
            if js_lt alen blen then Inr (- 1)
            else if js_gt alen blen then Inr 1
            else Inr 0)))"

text \<open>
  The \<open>while\<close> loop of \<open>_find\<close>. \<open>(start + end) >>> 1\<close> converts the sum to an unsigned
  32-bit integer before it shifts. The result is the payload offset, or \<open>-1\<close>.
\<close>

partial_function (option) find_loop ::
  "bool \<Rightarrow> reserved \<Rightarrow> buffer \<Rightarrow> int \<Rightarrow> int \<Rightarrow> (error + int) option" where
  "find_loop chk t key start endi =
     (if start \<le> endi then
        (let index = ((start + endi) mod 4294967296) div 2;
             pos = offset t + nat index * indexSize t
         in case Reserved_compare chk t key (pos + 1) of
              Inl e \<Rightarrow> Some (Inl e)
            | Inr cmp \<Rightarrow>
                if cmp = 0 then
                  Some (seq (readU32 (data t) (pos + 1 + nameSize t)) (\<lambda>p. Inr (int p)))
                else if cmp < 0 then find_loop chk t key (index + 1) endi
                else find_loop chk t key start (index - 1))
      else Some (Inr (- 1)))"

definition Reserved_find :: "bool \<Rightarrow> reserved \<Rightarrow> buffer \<Rightarrow> (error + int) option" where
  "Reserved_find chk t key = find_loop chk t key 0 (int (sizeR t) - 1)"

text \<open>
  The payload accessors. With \<open>len\<close> undefined the slice bounds are \<open>NaN\<close>:
  \<open>toString\<close> then gives the empty string, \<open>data[NaN]\<close> is \<open>undefined\<close> and
  \<open>readUInt32LE(NaN)\<close> throws.
\<close>

definition Reserved_target :: "bool \<Rightarrow> reserved \<Rightarrow> nat \<Rightarrow> error + string" where
  "Reserved_target chk t pos =
     seq (elem chk (data t) pos) (\<lambda>len.
       case len of
         None \<Rightarrow> Inr []
       | Some l \<Rightarrow>
           if chk \<and> length (data t) < pos + 1 + l then Inl OutOfBounds
           else Inr (toString_ascii (data t) (pos + 1) (pos + 1 + l)))"

definition Reserved_flags :: "bool \<Rightarrow> reserved \<Rightarrow> nat \<Rightarrow> error + nat option" where
  "Reserved_flags chk t pos =
     seq (elem chk (data t) pos) (\<lambda>len.
       case len of
         None \<Rightarrow> Inr None
       | Some l \<Rightarrow> elem chk (data t) (pos + 1 + l))"

definition Reserved_value :: "bool \<Rightarrow> reserved \<Rightarrow> nat \<Rightarrow> error + nat" where
  "Reserved_value chk t pos =
     seq (elem chk (data t) pos) (\<lambda>len.
       case len of
         None \<Rightarrow> Inl RangeError
       | Some l \<Rightarrow> readU64 (data t) (pos + 1 + l + 1))"

record entry =
  e_target :: string
  e_value :: nat
  e_root :: bool

text \<open>
  \<open>has\<close> returns \<open>null\<close> (here \<open>None\<close>) or a boolean; \<open>get\<close> returns \<open>null\<close> or the
  entry. The outer \<open>option\<close> is \<open>None\<close> when \<open>_find\<close> does not terminate.
\<close>

definition Reserved_has :: "bool \<Rightarrow> reserved \<Rightarrow> string \<Rightarrow> (error + bool option) option" where
  "Reserved_has chk t name =
     (if length name = 0 \<or> nameSize t < length name then Some (Inr None)
      else
        let key = Buffer_from name in
        case Reserved_find chk t key of
          None \<Rightarrow> None
        | Some (Inl e) \<Rightarrow> Some (Inl e)
        | Some (Inr pos) \<Rightarrow> Some (Inr (Some (pos \<noteq> - 1))))"

definition Reserved_get :: "bool \<Rightarrow> reserved \<Rightarrow> string \<Rightarrow> (error + entry option) option" where
  "Reserved_get chk t name =
     (if length name = 0 \<or> nameSize t < length name then Some (Inr None)
      else
        let key = Buffer_from name in
        case Reserved_find chk t key of
          None \<Rightarrow> None
        | Some (Inl e) \<Rightarrow> Some (Inl e)
        | Some (Inr pos) \<Rightarrow>
            if pos = - 1 then Some (Inr None)
            else Some (
              seq (Reserved_target chk t (nat pos)) (\<lambda>target.
              seq (Reserved_flags chk t (nat pos)) (\<lambda>flags.
              let root = (js_and flags 1 \<noteq> 0);
                  zero = (js_and flags 2 \<noteq> 0);
                  custom = (js_and flags 4 \<noteq> 0);
                  value0 = (if root then rootValue t else nameValue t);
                  value1 = (if zero then 0 else value0)
              in seq (if custom then Reserved_value chk t (nat pos) else Inr value1) (\<lambda>v.
                 Inr (Some \<lparr>e_target = target, e_value = v, e_root = root\<rparr>))))))"

subsection \<open>The reader of the hash table (class \<open>Reserved\<close>, second closure)\<close>

record hashed =
  hdata :: buffer
  hsize :: nat
  hnameValue :: nat
  hrootValue :: nat

definition Hashed :: "buffer \<Rightarrow> error + hashed" where
  "Hashed d =
     seq (readU32 d 0) (\<lambda>sz.
     seq (readU64 d 4) (\<lambda>nv.
     seq (readU64 d 12) (\<lambda>rv.
     Inr \<lparr>hdata = d, hsize = sz, hnameValue = nv, hrootValue = rv\<rparr>)))"

function hcompare_loop :: "buffer \<Rightarrow> buffer \<Rightarrow> nat \<Rightarrow> nat \<Rightarrow> int" where
  "hcompare_loop a b off i =
     (if i < 32 then
        (let x = at a (off + i); y = at b i in
         if js_lt x y then - 1
         else if js_gt x y then 1
         else hcompare_loop a b off (i + 1))
      else 0)"
  by pat_completeness auto
termination
  by (relation "measure (\<lambda>(a, b, off, i). 32 - i)") auto

declare hcompare_loop.simps [simp del]

definition Hashed_compare :: "hashed \<Rightarrow> buffer \<Rightarrow> nat \<Rightarrow> int" where
  "Hashed_compare t b off = hcompare_loop (hdata t) b off 0"

partial_function (option) hfind_loop ::
  "hashed \<Rightarrow> buffer \<Rightarrow> int \<Rightarrow> int \<Rightarrow> (error + int) option" where
  "hfind_loop t key start endi =
     (if start \<le> endi then
        (let index = ((start + endi) mod 4294967296) div 2;
             pos = 20 + nat index * 36;
             cmp = Hashed_compare t key pos
         in if cmp = 0 then
              Some (seq (readU32 (hdata t) (pos + 32)) (\<lambda>p. Inr (int p)))
            else if cmp < 0 then hfind_loop t key (index + 1) endi
            else hfind_loop t key start (index - 1))
      else Some (Inr (- 1)))"

definition Hashed_find :: "hashed \<Rightarrow> buffer \<Rightarrow> (error + int) option" where
  "Hashed_find t key = hfind_loop t key 0 (int (hsize t) - 1)"

definition Hashed_target :: "hashed \<Rightarrow> nat \<Rightarrow> string" where
  "Hashed_target t pos =
     (case at (hdata t) pos of
        None \<Rightarrow> []
      | Some l \<Rightarrow> toString_ascii (hdata t) (pos + 1) (pos + 1 + l))"

definition Hashed_flags :: "hashed \<Rightarrow> nat \<Rightarrow> nat option" where
  "Hashed_flags t pos =
     (case at (hdata t) pos of
        None \<Rightarrow> None
      | Some l \<Rightarrow> at (hdata t) (pos + 1 + l))"

definition Hashed_index :: "hashed \<Rightarrow> nat \<Rightarrow> nat option" where
  "Hashed_index t pos =
     (case at (hdata t) pos of
        None \<Rightarrow> None
      | Some l \<Rightarrow> at (hdata t) (pos + 1 + l + 1))"

definition Hashed_value :: "hashed \<Rightarrow> nat \<Rightarrow> error + nat" where
  "Hashed_value t pos =
     (case at (hdata t) pos of
        None \<Rightarrow> Inl RangeError
      | Some l \<Rightarrow> readU64 (hdata t) (pos + 1 + l + 1 + 1))"

record hentry =
  h_name :: string
  h_target :: string
  h_value :: nat
  h_root :: bool

text \<open>
  Both lookups assert that the key is a buffer of 32 bytes.
  \<open>target.substring(0, index)\<close> with \<open>index\<close> undefined is the whole string.
\<close>

definition Hashed_has :: "hashed \<Rightarrow> buffer \<Rightarrow> (error + bool) option" where
  "Hashed_has t hash =
     (if length hash \<noteq> 32 then Some (Inl AssertionError)
      else
        case Hashed_find t hash of
          None \<Rightarrow> None
        | Some (Inl e) \<Rightarrow> Some (Inl e)
        | Some (Inr pos) \<Rightarrow> Some (Inr (pos \<noteq> - 1)))"

definition Hashed_get :: "hashed \<Rightarrow> buffer \<Rightarrow> (error + hentry option) option" where
  "Hashed_get t hash =
     (if length hash \<noteq> 32 then Some (Inl AssertionError)
      else
        case Hashed_find t hash of
          None \<Rightarrow> None
        | Some (Inl e) \<Rightarrow> Some (Inl e)
        | Some (Inr pos) \<Rightarrow>
            if pos = - 1 then Some (Inr None)
            else Some (
              let target = Hashed_target t (nat pos);
                  flags = Hashed_flags t (nat pos);
                  index = Hashed_index t (nat pos);
                  root = (js_and flags 1 \<noteq> 0);
                  zero = (js_and flags 2 \<noteq> 0);
                  custom = (js_and flags 4 \<noteq> 0);
                  name = (case index of None \<Rightarrow> target | Some i \<Rightarrow> take i target);
                  value0 = (if root then hrootValue t else hnameValue t);
                  value1 = (if zero then 0 else value0)
              in seq (if custom then Hashed_value t (nat pos) else Inr value1) (\<lambda>v.
                 Inr (Some \<lparr>h_name = name, h_target = target, h_value = v, h_root = root\<rparr>))))"

text \<open>\<open>util.hashName\<close> is not part of \<open>generate.js\<close>; it is a parameter.\<close>

definition Hashed_getByName ::
  "(string \<Rightarrow> buffer) \<Rightarrow> hashed \<Rightarrow> string \<Rightarrow> (error + hentry option) option" where
  "Hashed_getByName hashName t name = Hashed_get t (hashName name)"

definition Hashed_hasByName ::
  "(string \<Rightarrow> buffer) \<Rightarrow> hashed \<Rightarrow> string \<Rightarrow> (error + bool) option" where
  "Hashed_hasByName hashName t name = Hashed_has t (hashName name)"

subsection \<open>The records and their order\<close>

text \<open>
  An item of \<open>getList\<close>. \<open>customValue\<close> is read by both encoders; \<open>ivalue\<close> is the
  field \<open>value\<close>, which the encoders do not read.
\<close>

record item =
  name :: string
  hash :: buffer
  target :: string
  ivalue :: nat
  root :: bool
  customValue :: "nat option"

definition embargoes :: "string list" where
  "embargoes = [''ir'', ''xn--mgba3a4f16a'', ''kp'', ''sy'', ''xn--ogbpf8fl'', ''sd'',
                ''xn--mgbpl2fh'', ''cu'', ''ve'']"

text \<open>The common loop of a byte-wise comparison; \<open>None\<close> when no byte differs.\<close>

fun cmp_prefix :: "nat list \<Rightarrow> nat list \<Rightarrow> int option" where
  "cmp_prefix (x # xs) (y # ys) =
     (if x < y then Some (- 1) else if y < x then Some 1 else cmp_prefix xs ys)"
| "cmp_prefix xs ys = None"

text \<open>\<open>a.compare(b)\<close> of Node's \<open>Buffer\<close>.\<close>

definition Buffer_compare :: "buffer \<Rightarrow> buffer \<Rightarrow> int" where
  "Buffer_compare a b =
     (case cmp_prefix a b of
        Some c \<Rightarrow> c
      | None \<Rightarrow> if length a < length b then - 1 else if length b < length a then 1 else 0)"

text \<open>
  Modelled from the spec: \<open>util.compare\<close>, which \<open>sortAlpha\<close> calls, is in \<open>util.js\<close>
  and not in \<open>generate.js\<close>. The spec describes it as the byte-wise lexicographic
  comparison of the two names, a name sorting before every longer name it is a prefix of.
\<close>

definition util_compare :: "string \<Rightarrow> string \<Rightarrow> int" where
  "util_compare a b =
     (case cmp_prefix (map of_char a) (map of_char b) of
        Some c \<Rightarrow> c
      | None \<Rightarrow> if length a < length b then - 1 else if length b < length a then 1 else 0)"

definition sortAlpha :: "item \<Rightarrow> item \<Rightarrow> int" where
  "sortAlpha a b = util_compare (name a) (name b)"

definition sortHash :: "item \<Rightarrow> item \<Rightarrow> int" where
  "sortHash a b = Buffer_compare (hash a) (hash b)"

text \<open>\<open>Array.prototype.sort\<close> with a comparator: a stable sort, here by insertion.\<close>

fun insert_by :: "('a \<Rightarrow> 'a \<Rightarrow> int) \<Rightarrow> 'a \<Rightarrow> 'a list \<Rightarrow> 'a list" where
  "insert_by cmp x [] = [x]"
| "insert_by cmp x (y # ys) = (if cmp x y \<le> 0 then x # y # ys else y # insert_by cmp x ys)"

definition sort_by :: "('a \<Rightarrow> 'a \<Rightarrow> int) \<Rightarrow> 'a list \<Rightarrow> 'a list" where
  "sort_by cmp xs = foldr (insert_by cmp) xs []"

subsection \<open>The writer of \<open>bufio\<close>\<close>

text \<open>
  \<open>bio.write(20 << 20)\<close> is a writer over a buffer of fixed size; a write that does not
  fit throws. The model keeps the bytes written so far, \<open>bw.offset\<close> being their number,
  and \<open>bw.slice()\<close> returns them. Numbers must be safe integers; a byte keeps the low eight
  bits. \<open>bufio\<close> is a library outside the repository, modelled as this program uses it.
\<close>

type_synonym writer = "nat list"

definition CAPACITY :: nat where
  "CAPACITY = 20971520"

fun le_bytes :: "nat \<Rightarrow> nat \<Rightarrow> nat list" where
  "le_bytes 0 v = []"
| "le_bytes (Suc k) v = (v mod 256) # le_bytes k (v div 256)"

definition put :: "nat list \<Rightarrow> writer \<Rightarrow> error + writer" where
  "put bs bw = (if length bw + length bs \<le> CAPACITY then Inr (bw @ bs) else Inl EncodingError)"

definition safe :: "int \<Rightarrow> bool" where
  "safe v = (\<bar>v\<bar> \<le> 9007199254740991)"

definition writeU8 :: "int \<Rightarrow> writer \<Rightarrow> error + writer" where
  "writeU8 v bw = (if safe v then put [nat (v mod 256)] bw else Inl TypeError)"

definition writeU32 :: "nat \<Rightarrow> writer \<Rightarrow> error + writer" where
  "writeU32 v bw = (if safe (int v) then put (le_bytes 4 v) bw else Inl TypeError)"

definition writeU64 :: "nat \<Rightarrow> writer \<Rightarrow> error + writer" where
  "writeU64 v bw = (if safe (int v) then put (le_bytes 8 v) bw else Inl TypeError)"

definition writeString :: "string \<Rightarrow> writer \<Rightarrow> error + writer" where
  "writeString s bw = put (Buffer_from s) bw"

definition writeBytes :: "buffer \<Rightarrow> writer \<Rightarrow> error + writer" where
  "writeBytes bs bw = put bs bw"

definition fill :: "nat \<Rightarrow> nat \<Rightarrow> writer \<Rightarrow> error + writer" where
  "fill v n bw = put (replicate n v) bw"

text \<open>
  \<open>bw.data.writeUInt32LE(value, pos)\<close> overwrites four bytes. Both encoders patch a
  placeholder they wrote before, so the four bytes are among those written.
\<close>

definition writeUInt32LE :: "nat \<Rightarrow> nat \<Rightarrow> writer \<Rightarrow> error + writer" where
  "writeUInt32LE v pos bw =
     (if v < 4294967296 \<and> pos + 4 \<le> length bw
      then Inr (take pos bw @ le_bytes 4 v @ drop (pos + 4) bw)
      else Inl RangeError)"

subsection \<open>The encoder of the name table\<close>

fun largest :: "nat \<Rightarrow> nat list \<Rightarrow> nat" where
  "largest m [] = m"
| "largest m (l # ls) = largest (if m < l then l else m) ls"

definition flags_of :: "item \<Rightarrow> nat" where
  "flags_of item =
     (let flags = 0;
          flags = (if root item then flags OR 1 else flags);
          flags = (if name item \<in> set embargoes then flags OR 2 else flags);
          flags = (if customValue item \<noteq> None then flags OR 4 else flags)
      in flags)"

text \<open>The first loop writes the index with empty offsets and remembers \<open>item.pos\<close>.\<close>

fun write_index :: "nat \<Rightarrow> item list \<Rightarrow> writer \<Rightarrow> error + writer \<times> nat list" where
  "write_index largestName [] bw = Inr (bw, [])"
| "write_index largestName (item # items) bw =
     seq (writeU8 (int (length (name item))) bw) (\<lambda>bw.
     seq (writeString (name item) bw) (\<lambda>bw.
     seq (fill 0 (largestName - length (name item)) bw) (\<lambda>bw.
     let pos = length bw in
     seq (writeU32 0 bw) (\<lambda>bw.
     seq (write_index largestName items bw) (\<lambda>(bw, poss).
     Inr (bw, pos # poss))))))"

text \<open>The second loop patches each offset and writes the payload.\<close>

fun write_payloads :: "(item \<times> nat) list \<Rightarrow> writer \<Rightarrow> error + writer" where
  "write_payloads [] bw = Inr bw"
| "write_payloads ((item, pos) # rest) bw =
     seq (writeUInt32LE (length bw) pos bw) (\<lambda>bw.
     seq (writeU8 (int (length (target item))) bw) (\<lambda>bw.
     seq (writeString (target item) bw) (\<lambda>bw.
     seq (writeU8 (int (flags_of item)) bw) (\<lambda>bw.
     seq (case customValue item of None \<Rightarrow> Inr bw | Some v \<Rightarrow> writeU64 v bw) (\<lambda>bw.
     write_payloads rest bw)))))"

text \<open>\<open>NAME_VALUE\<close> and \<open>TLD_VALUE\<close> are the parameters \<open>nv\<close> and \<open>rv\<close>.\<close>

definition generateRaw :: "nat \<Rightarrow> nat \<Rightarrow> item list \<Rightarrow> error + buffer" where
  "generateRaw nv rv items =
     (let largestName = largest 0 (map (\<lambda>item. length (name item)) items);
          largestTarget = largest 0 (map (\<lambda>item. length (target item)) items)
      in if \<not> largestName \<le> 63 then Inl AssertionError
         else if \<not> largestTarget \<le> 255 then Inl AssertionError
         else
           seq (writeU32 (length items) []) (\<lambda>bw.
           seq (writeU8 (int largestName) bw) (\<lambda>bw.
           seq (writeU64 nv bw) (\<lambda>bw.
           seq (writeU64 rv bw) (\<lambda>bw.
           seq (write_index largestName items bw) (\<lambda>(bw, poss).
           write_payloads (zip items poss) bw))))))"

subsection \<open>The encoder of the hash table\<close>

text \<open>\<open>target.indexOf('.')\<close>: the position of the first occurrence, or \<open>-1\<close>.\<close>

fun indexOf :: "string \<Rightarrow> char \<Rightarrow> int" where
  "indexOf [] c = - 1"
| "indexOf (x # xs) c =
     (if x = c then 0 else (let r = indexOf xs c in if r = - 1 then - 1 else r + 1))"

fun write_hindex :: "item list \<Rightarrow> writer \<Rightarrow> error + writer \<times> nat list" where
  "write_hindex [] bw = Inr (bw, [])"
| "write_hindex (item # items) bw =
     seq (writeBytes (hash item) bw) (\<lambda>bw.
     let pos = length bw in
     seq (writeU32 0 bw) (\<lambda>bw.
     seq (write_hindex items bw) (\<lambda>(bw, poss).
     Inr (bw, pos # poss))))"

fun write_hpayloads :: "(item \<times> nat) list \<Rightarrow> writer \<Rightarrow> error + writer" where
  "write_hpayloads [] bw = Inr bw"
| "write_hpayloads ((item, pos) # rest) bw =
     seq (writeUInt32LE (length bw) pos bw) (\<lambda>bw.
     if \<not> length (target item) \<le> 255 then Inl AssertionError
     else
       seq (writeU8 (int (length (target item))) bw) (\<lambda>bw.
       seq (writeString (target item) bw) (\<lambda>bw.
       seq (writeU8 (int (flags_of item)) bw) (\<lambda>bw.
       seq (writeU8 (indexOf (target item) (CHR ''.'')) bw) (\<lambda>bw.
       seq (case customValue item of None \<Rightarrow> Inr bw | Some v \<Rightarrow> writeU64 v bw) (\<lambda>bw.
       write_hpayloads rest bw))))))"

definition generateRawHash :: "nat \<Rightarrow> nat \<Rightarrow> item list \<Rightarrow> error + buffer" where
  "generateRawHash nv rv items0 =
     (let items = sort_by sortHash items0 in
      seq (writeU32 (length items) []) (\<lambda>bw.
      seq (writeU64 nv bw) (\<lambda>bw.
      seq (writeU64 rv bw) (\<lambda>bw.
      seq (write_hindex items bw) (\<lambda>(bw, poss).
      write_hpayloads (zip items poss) bw)))))"

section \<open>The byte layout and the value of a record\<close>

subsection \<open>Layout of the name table\<close>

text \<open>
  The buffer \<open>generateRaw\<close> returns, in closed form: the header of 21 bytes, one index
  entry of \<open>nameCapacity + 5\<close> bytes per item, then the payloads. The entry of an item
  carries the absolute offset of its payload.
\<close>

definition index_entry :: "nat \<Rightarrow> item \<Rightarrow> nat \<Rightarrow> nat list" where
  "index_entry cap it off =
     length (name it) # Buffer_from (name it) @ replicate (cap - length (name it)) 0 @ le_bytes 4 off"

definition payload :: "item \<Rightarrow> nat list" where
  "payload it =
     length (target it) # Buffer_from (target it) @ [flags_of it] @
     (case customValue it of None \<Rightarrow> [] | Some v \<Rightarrow> le_bytes 8 v)"

fun index_entries ::
  "(item \<Rightarrow> nat \<Rightarrow> nat list) \<Rightarrow> (item \<Rightarrow> nat list) \<Rightarrow> nat \<Rightarrow> item list \<Rightarrow> nat list" where
  "index_entries ent pay off [] = []"
| "index_entries ent pay off (it # its) =
     ent it off @ index_entries ent pay (off + length (pay it)) its"

definition name_positions :: "nat \<Rightarrow> nat \<Rightarrow> nat \<Rightarrow> nat list" where
  "name_positions cap base n = map (\<lambda>k. base + k * (cap + 5) + 1 + cap) [0..<n]"

definition header :: "nat \<Rightarrow> nat \<Rightarrow> nat \<Rightarrow> nat \<Rightarrow> nat list" where
  "header n cap nv rv = le_bytes 4 n @ [cap] @ le_bytes 8 nv @ le_bytes 8 rv"

definition name_cap :: "item list \<Rightarrow> nat" where
  "name_cap items = largest 0 (map (\<lambda>item. length (name item)) items)"

definition layout :: "nat \<Rightarrow> nat \<Rightarrow> item list \<Rightarrow> nat list" where
  "layout nv rv items =
     header (length items) (name_cap items) nv rv
     @ index_entries (index_entry (name_cap items)) payload
         (21 + (name_cap items + 5) * length items) items
     @ concat (map payload items)"

definition pay_off :: "(item \<Rightarrow> nat list) \<Rightarrow> nat \<Rightarrow> item list \<Rightarrow> nat \<Rightarrow> nat" where
  "pay_off pay base its i = base + length (concat (map pay (take i its)))"

definition name_off :: "item list \<Rightarrow> nat \<Rightarrow> nat" where
  "name_off items m = pay_off payload (21 + (name_cap items + 5) * length items) items m"

text \<open>The table the constructor builds over that buffer.\<close>

definition opened :: "nat \<Rightarrow> nat \<Rightarrow> item list \<Rightarrow> reserved" where
  "opened nv rv items =
     \<lparr>data = layout nv rv items, sizeR = length items, nameSize = name_cap items,
      nameValue = nv, rootValue = rv, offset = 21, indexSize = 1 + name_cap items + 4\<rparr>"

text \<open>The keys of the index, in the order of the items.\<close>

definition keys :: "item list \<Rightarrow> buffer list" where
  "keys items = map (\<lambda>it. Buffer_from (name it)) items"

subsection \<open>The value of a record (section 4.1 of the specification)\<close>

text \<open>
  The specification resolves a record against the two defaults: the root or the name
  default, then 0 when the record is zeroed, then the custom value when there is one.
  An item has no field \<open>zeroed\<close>: both encoders set the flag when the name is embargoed.
\<close>

definition zeroed :: "item \<Rightarrow> bool" where
  "zeroed it = (name it \<in> set embargoes)"

definition resolve :: "nat \<Rightarrow> nat \<Rightarrow> item \<Rightarrow> nat" where
  "resolve nv rv it =
     (let value = (if root it then rv else nv);
          value = (if zeroed it then 0 else value);
          value = (case customValue it of Some c \<Rightarrow> c | None \<Rightarrow> value)
      in value)"

subsection \<open>Concrete tables\<close>

text \<open>The three records of the specification's scenario, and their table.\<close>

definition com :: item where
  "com = \<lparr>name = ''com'', hash = [], target = ''com.'', ivalue = 2000, root = True,
          customValue = None\<rparr>"

definition bitcoin :: item where
  "bitcoin = \<lparr>name = ''bitcoin'', hash = [], target = ''bitcoin.'', ivalue = 1000, root = False,
              customValue = None\<rparr>"

definition cu :: item where
  "cu = \<lparr>name = ''cu'', hash = [], target = ''cu.'', ivalue = 0, root = False,
         customValue = None\<rparr>"

definition scenario_bytes :: buffer where
  "scenario_bytes =
     [3, 0, 0, 0, 7, 232, 3, 0, 0, 0, 0, 0, 0, 208, 7, 0, 0, 0, 0, 0, 0,
      7, 98, 105, 116, 99, 111, 105, 110, 57, 0, 0, 0,
      3, 99, 111, 109, 0, 0, 0, 0, 67, 0, 0, 0,
      2, 99, 117, 0, 0, 0, 0, 0, 73, 0, 0, 0,
      8, 98, 105, 116, 99, 111, 105, 110, 46, 0,
      4, 99, 111, 109, 46, 1,
      3, 99, 117, 46, 2]"

text \<open>
  A buffer of 21 bytes whose header announces five records of capacity 3, and the table
  the constructor makes of it; a hash table without records.
\<close>

definition short_buffer :: buffer where
  "short_buffer = [5, 0, 0, 0, 3] @ replicate 16 0"

definition short_table :: reserved where
  "short_table = \<lparr>data = short_buffer, sizeR = 5, nameSize = 3, nameValue = 0, rootValue = 0,
                   offset = 21, indexSize = 8\<rparr>"

definition empty_hashed :: hashed where
  "empty_hashed = \<lparr>hdata = replicate 20 0, hsize = 0, hnameValue = 0, hrootValue = 0\<rparr>"

text \<open>Two names, one a prefix of the other, and the table of the two.\<close>

definition co :: item where
  "co = \<lparr>name = ''co'', hash = [], target = ''co.'', ivalue = 2000, root = True,
         customValue = None\<rparr>"

definition prefix_bytes :: buffer where
  "prefix_bytes =
     [2, 0, 0, 0, 3, 232, 3, 0, 0, 0, 0, 0, 0, 208, 7, 0, 0, 0, 0, 0, 0,
      2, 99, 111, 0, 37, 0, 0, 0,
      3, 99, 111, 109, 42, 0, 0, 0,
      3, 99, 111, 46, 1,
      4, 99, 111, 109, 46, 1]"

subsection \<open>Layout of the hash table\<close>

text \<open>
  The buffer \<open>generateRawHash\<close> returns for items already in hash order: a header of 20
  bytes, index entries of 36 bytes (the hash and the payload offset), then the payloads, each
  with the label length after the flags.
\<close>

definition hindex_entry :: "item \<Rightarrow> nat \<Rightarrow> nat list" where
  "hindex_entry it off = hash it @ le_bytes 4 off"

definition hpayload :: "item \<Rightarrow> nat list" where
  "hpayload it =
     length (target it) # Buffer_from (target it) @ [flags_of it] @
     [nat (indexOf (target it) (CHR ''.'') mod 256)] @
     (case customValue it of None \<Rightarrow> [] | Some v \<Rightarrow> le_bytes 8 v)"

definition hash_positions :: "nat \<Rightarrow> nat \<Rightarrow> nat list" where
  "hash_positions base n = map (\<lambda>k. base + k * 36 + 32) [0..<n]"

definition hheader :: "nat \<Rightarrow> nat \<Rightarrow> nat \<Rightarrow> nat list" where
  "hheader n nv rv = le_bytes 4 n @ le_bytes 8 nv @ le_bytes 8 rv"

definition hlayout :: "nat \<Rightarrow> nat \<Rightarrow> item list \<Rightarrow> nat list" where
  "hlayout nv rv items =
     hheader (length items) nv rv
     @ index_entries hindex_entry hpayload (20 + 36 * length items) items
     @ concat (map hpayload items)"

definition hash_off :: "item list \<Rightarrow> nat \<Rightarrow> nat" where
  "hash_off items m = pay_off hpayload (20 + 36 * length items) items m"

definition hopened :: "nat \<Rightarrow> nat \<Rightarrow> item list \<Rightarrow> hashed" where
  "hopened nv rv items =
     \<lparr>hdata = hlayout nv rv items, hsize = length items, hnameValue = nv, hrootValue = rv\<rparr>"

subsection \<open>Concrete hash tables and a custom value\<close>

text \<open>
  Two items with 32-byte hashes, \<open>cu\<close> with a custom value, and the hash table of the two;
  the name table of \<open>cu\<close> with a custom value.
\<close>

definition hcom :: item where
  "hcom = \<lparr>name = ''com'',
            hash = [0, 0, 0, 0, 0, 0, 0, 0, 0, 0, 0, 0, 0, 0, 0, 0,
                    0, 0, 0, 0, 0, 0, 0, 0, 0, 0, 0, 0, 0, 0, 0, 2],
            target = ''com.'', ivalue = 2000, root = True, customValue = None\<rparr>"

definition hcu :: item where
  "hcu = \<lparr>name = ''cu'',
           hash = [0, 0, 0, 0, 0, 0, 0, 0, 0, 0, 0, 0, 0, 0, 0, 0,
                   0, 0, 0, 0, 0, 0, 0, 0, 0, 0, 0, 0, 0, 0, 0, 1],
           target = ''cu.'', ivalue = 0, root = False, customValue = Some 5000\<rparr>"

definition hashed_bytes :: buffer where
  "hashed_bytes =
     [2, 0, 0, 0, 232, 3, 0, 0, 0, 0, 0, 0, 208, 7, 0, 0, 0, 0, 0, 0,
      0, 0, 0, 0, 0, 0, 0, 0, 0, 0, 0, 0, 0, 0, 0, 0,
      0, 0, 0, 0, 0, 0, 0, 0, 0, 0, 0, 0, 0, 0, 0, 1, 92, 0, 0, 0,
      0, 0, 0, 0, 0, 0, 0, 0, 0, 0, 0, 0, 0, 0, 0, 0,
      0, 0, 0, 0, 0, 0, 0, 0, 0, 0, 0, 0, 0, 0, 0, 2, 106, 0, 0, 0,
      3, 99, 117, 46, 6, 2, 136, 19, 0, 0, 0, 0, 0, 0,
      4, 99, 111, 109, 46, 1, 3]"

definition custom_bytes :: buffer where
  "custom_bytes =
     [1, 0, 0, 0, 2, 232, 3, 0, 0, 0, 0, 0, 0, 208, 7, 0, 0, 0, 0, 0, 0,
      2, 99, 117, 28, 0, 0, 0,
      3, 99, 117, 46, 6, 136, 19, 0, 0, 0, 0, 0, 0]"

definition cu_custom :: item where
  "cu_custom = \<lparr>name = ''cu'', hash = [], target = ''cu.'', ivalue = 0, root = False,
                customValue = Some 5000\<rparr>"

text \<open>
  A record as \<open>getList\<close> builds it from the domain \<open>www.google.com\<close>, whose name is
  not the first label of its target, with the hash table of it and \<open>com\<close>; a record whose
  name contains a separator, with its hash table.
\<close>

definition hgoogle :: item where
  "hgoogle = \<lparr>name = ''google'',
               hash = [0, 0, 0, 0, 0, 0, 0, 0, 0, 0, 0, 0, 0, 0, 0, 0,
                       0, 0, 0, 0, 0, 0, 0, 0, 0, 0, 0, 0, 0, 0, 0, 3],
               target = ''www.google.com.'', ivalue = 1000, root = False,
               customValue = None\<rparr>"

definition hdot :: item where
  "hdot = \<lparr>name = ''a.b'',
            hash = [0, 0, 0, 0, 0, 0, 0, 0, 0, 0, 0, 0, 0, 0, 0, 0,
                    0, 0, 0, 0, 0, 0, 0, 0, 0, 0, 0, 0, 0, 0, 0, 4],
            target = ''a.b.c.'', ivalue = 1000, root = False, customValue = None\<rparr>"

definition www_bytes :: buffer where
  "www_bytes =
     [2, 0, 0, 0, 232, 3, 0, 0, 0, 0, 0, 0, 208, 7, 0, 0, 0, 0, 0, 0,
      0, 0, 0, 0, 0, 0, 0, 0, 0, 0, 0, 0, 0, 0, 0, 0,
      0, 0, 0, 0, 0, 0, 0, 0, 0, 0, 0, 0, 0, 0, 0, 2, 92, 0, 0, 0,
      0, 0, 0, 0, 0, 0, 0, 0, 0, 0, 0, 0, 0, 0, 0, 0,
      0, 0, 0, 0, 0, 0, 0, 0, 0, 0, 0, 0, 0, 0, 0, 3, 99, 0, 0, 0,
      4, 99, 111, 109, 46, 1, 3,
      15, 119, 119, 119, 46, 103, 111, 111, 103, 108, 101, 46, 99, 111, 109, 46, 0, 3]"

definition dot_bytes :: buffer where
  "dot_bytes =
     [1, 0, 0, 0, 232, 3, 0, 0, 0, 0, 0, 0, 208, 7, 0, 0, 0, 0, 0, 0,
      0, 0, 0, 0, 0, 0, 0, 0, 0, 0, 0, 0, 0, 0, 0, 0,
      0, 0, 0, 0, 0, 0, 0, 0, 0, 0, 0, 0, 0, 0, 0, 4, 56, 0, 0, 0,
      6, 97, 46, 98, 46, 99, 46, 0, 1]"

section \<open>Lemmas\<close>

subsection \<open>The name table: what the encoder writes and what the reader finds\<close>

lemma seq_Inr_iff: "seq m f = Inr y \<longleftrightarrow> (\<exists>x. m = Inr x \<and> f x = Inr y)"
  by (cases m) (simp_all add: seq_def)

lemma seq_Inr [simp]: "seq (Inr x) f = f x"
  by (simp add: seq_def)

lemma seq_Inl [simp]: "seq (Inl e) f = Inl e"
  by (simp add: seq_def)

lemma put_Inr_iff: "put bs bw = Inr bw' \<longleftrightarrow> length bw + length bs \<le> CAPACITY \<and> bw' = bw @ bs"
  by (auto simp: put_def)

lemma length_le_bytes [simp]: "length (le_bytes k v) = k"
  by (induction k arbitrary: v) simp_all

lemma largest_ge: "m \<le> largest m ls"
proof (induction ls arbitrary: m)
  case Nil
  show ?case by simp
next
  case (Cons l ls)
  have "(if m < l then l else m) \<le> largest (if m < l then l else m) ls"
    by (rule Cons.IH)
  then show ?case by (simp split: if_splits)
qed

lemma largest_upper: "l \<in> set ls \<Longrightarrow> l \<le> largest m ls"
proof (induction ls arbitrary: m)
  case Nil
  then show ?case by simp
next
  case (Cons x xs)
  show ?case
  proof (cases "l = x")
    case True
    have "(if m < x then x else m) \<le> largest (if m < x then x else m) xs"
      by (rule largest_ge)
    with True show ?thesis by (simp split: if_splits)
  next
    case False
    with Cons.prems have "l \<in> set xs" by simp
    then show ?thesis using Cons.IH by simp
  qed
qed

lemma length_index_entry: "length (name it) \<le> cap \<Longrightarrow> length (index_entry cap it off) = cap + 5"
  by (simp add: index_entry_def Buffer_from_def)

lemma flags_of_less: "flags_of it < 8"
  by (simp add: flags_of_def)

lemma write_index_inv:
  assumes "write_index cap its bw = Inr (bw', ps)"
    and "\<forall>it\<in>set its. length (name it) \<le> cap" and "cap \<le> 63"
  shows "bw' = bw @ concat (map (\<lambda>it. index_entry cap it 0) its)
       \<and> ps = map (\<lambda>k. length bw + k * (cap + 5) + 1 + cap) [0..<length its]"
  using assms
proof (induction its arbitrary: bw bw' ps)
  case Nil
  then show ?case by simp
next
  case (Cons it its)
  from Cons.prems(1) obtain bw1 bw2 ps2 where
    w1: "bw1 = bw @ index_entry cap it 0"
    and w2: "write_index cap its bw1 = Inr (bw2, ps2)"
    and r: "bw' = bw2" "ps = (length bw + 1 + cap) # ps2"
    using Cons.prems(2,3)
    by (auto simp: seq_Inr_iff writeU8_def writeString_def fill_def writeU32_def put_Inr_iff
        index_entry_def Buffer_from_def Let_def split: if_splits prod.splits)
  from Cons.IH[OF w2] Cons.prems(2,3) have
    ih: "bw2 = bw1 @ concat (map (\<lambda>it. index_entry cap it 0) its)"
        "ps2 = map (\<lambda>k. length bw1 + k * (cap + 5) + 1 + cap) [0..<length its]"
    by simp_all
  have len1: "length bw1 = length bw + (cap + 5)"
    using w1 Cons.prems(2) by (simp add: length_index_entry)
  have "map (\<lambda>k. length bw + k * (cap + 5) + 1 + cap) [0..<length (it # its)]
      = (length bw + 1 + cap) # map (\<lambda>k. length bw1 + k * (cap + 5) + 1 + cap) [0..<length its]"
    by (simp add: upt_conv_Cons map_Suc_upt[symmetric] len1 del: upt_Suc)
  with r ih w1 show ?case by simp
qed

lemma patch_mid:
  "length A = p \<Longrightarrow> length z = 4 \<Longrightarrow> take p (A @ z @ R) @ v @ drop (p + 4) (A @ z @ R) = A @ v @ R"
  by simp

lemma writeUInt32LE_entry:
  assumes "length (name it) \<le> cap" and "p = length X + 1 + cap"
    and "writeUInt32LE v p (X @ index_entry cap it 0 @ R) = Inr bw1"
  shows "bw1 = X @ index_entry cap it v @ R \<and> v < 4294967296"
proof -
  define A where "A = X @ (length (name it) # Buffer_from (name it) @ replicate (cap - length (name it)) 0)"
  define D where "D = A @ le_bytes 4 0 @ R"
  have lA: "length A = p" using assms(1,2) by (simp add: A_def Buffer_from_def)
  have eq: "X @ index_entry cap it 0 @ R = D"
    by (simp add: index_entry_def A_def D_def)
  have w: "writeUInt32LE v p D = Inr bw1" using assms(3) unfolding eq .
  then have v: "v < 4294967296" and b: "bw1 = take p D @ le_bytes 4 v @ drop (p + 4) D"
    by (auto simp: writeUInt32LE_def split: if_splits)
  have "take p D @ le_bytes 4 v @ drop (p + 4) D = A @ le_bytes 4 v @ R"
    unfolding D_def by (rule patch_mid[OF lA]) simp
  moreover have "A @ le_bytes 4 v @ R = X @ index_entry cap it v @ R"
    by (simp add: index_entry_def A_def)
  ultimately show ?thesis using b v by simp
qed

lemma payload_append_inv:
  assumes "seq (writeU8 (int (length (target it))) bw1) (\<lambda>bw.
     seq (writeString (target it) bw) (\<lambda>bw.
     seq (writeU8 (int (flags_of it)) bw) (\<lambda>bw.
     (case customValue it of None \<Rightarrow> Inr bw | Some v \<Rightarrow> writeU64 v bw)))) = Inr bw2"
    and "length (target it) \<le> 255"
  shows "bw2 = bw1 @ payload it \<and> length bw2 \<le> CAPACITY
       \<and> (\<forall>v. customValue it = Some v \<longrightarrow> v \<le> 9007199254740991)"
proof -
  have f: "flags_of it < 8" by (rule flags_of_less)
  show ?thesis using assms f
    by (auto simp: seq_Inr_iff writeU8_def writeString_def writeU64_def put_Inr_iff
        payload_def Buffer_from_def safe_def split: if_splits option.splits)
qed

lemma name_positions_Suc:
  "name_positions cap base (Suc n) = (base + 1 + cap) # name_positions cap (base + (cap + 5)) n"
  by (simp add: name_positions_def upt_conv_Cons map_Suc_upt[symmetric] del: upt_Suc)

lemma write_payloads_inv:
  assumes "write_payloads (zip its ps) (X @ concat (map (\<lambda>it. index_entry cap it 0) its) @ B) = Inr d"
    and "ps = name_positions cap (length X) (length its)"
    and "\<forall>it\<in>set its. length (name it) \<le> cap \<and> length (target it) \<le> 255"
  shows "d = X @ index_entries (index_entry cap) payload
                 (length X + (cap + 5) * length its + length B) its
               @ B @ concat (map payload its)
       \<and> (\<forall>it\<in>set its. \<forall>v. customValue it = Some v \<longrightarrow> v \<le> 9007199254740991)
       \<and> (its \<noteq> [] \<longrightarrow> length d \<le> CAPACITY)"
  using assms
proof (induction its arbitrary: X B ps d)
  case Nil
  then show ?case by simp
next
  case (Cons it its)
  let ?R = "concat (map (\<lambda>it. index_entry cap it 0) its) @ B"
  let ?bw = "X @ index_entry cap it 0 @ ?R"
  let ?off = "length X + (cap + 5) * length (it # its) + length B"
  have nm: "length (name it) \<le> cap" and tg: "length (target it) \<le> 255"
    using Cons.prems(3) by simp_all
  have lens: "length (concat (map (\<lambda>it. index_entry cap it 0) its)) = (cap + 5) * length its"
    using Cons.prems(3) by (induction its) (simp_all add: length_index_entry)
  have lbw: "length ?bw = ?off"
    using nm lens by (simp add: length_index_entry)
  obtain ps' where ps: "ps = (length X + 1 + cap) # ps'"
    and ps': "ps' = name_positions cap (length X + (cap + 5)) (length its)"
    using Cons.prems(2) by (simp add: name_positions_Suc)
  have bweq: "X @ concat (map (\<lambda>it. index_entry cap it 0) (it # its)) @ B = ?bw" by simp
  from Cons.prems(1) obtain bw1 bw2 where
    s1: "writeUInt32LE (length ?bw) (length X + 1 + cap) ?bw = Inr bw1"
    and s2: "seq (writeU8 (int (length (target it))) bw1) (\<lambda>bw.
       seq (writeString (target it) bw) (\<lambda>bw.
       seq (writeU8 (int (flags_of it)) bw) (\<lambda>bw.
       (case customValue it of None \<Rightarrow> Inr bw | Some v \<Rightarrow> writeU64 v bw)))) = Inr bw2"
    and s3: "write_payloads (zip its ps') bw2 = Inr d"
    unfolding bweq ps by (auto simp: seq_Inr_iff)
  have "bw1 = X @ index_entry cap it (length ?bw) @ ?R"
    by (rule conjunct1[OF writeUInt32LE_entry[OF nm refl s1]])
  then have b1: "bw1 = X @ index_entry cap it ?off @ ?R"
    by (simp only: lbw)
  from payload_append_inv[OF s2 tg]
  have b2: "bw2 = bw1 @ payload it" and cap2: "length bw2 \<le> CAPACITY"
    and cv: "\<forall>v. customValue it = Some v \<longrightarrow> v \<le> 9007199254740991" by blast+
  let ?X' = "X @ index_entry cap it ?off"
  let ?B' = "B @ payload it"
  have b2': "bw2 = ?X' @ concat (map (\<lambda>it. index_entry cap it 0) its) @ ?B'"
    using b1 b2 by simp
  have lX': "length ?X' = length X + (cap + 5)" using nm by (simp add: length_index_entry)
  have ih: "d = ?X' @ index_entries (index_entry cap) payload
                 (length ?X' + (cap + 5) * length its + length ?B') its
               @ ?B' @ concat (map payload its)
       \<and> (\<forall>it\<in>set its. \<forall>v. customValue it = Some v \<longrightarrow> v \<le> 9007199254740991)
       \<and> (its \<noteq> [] \<longrightarrow> length d \<le> CAPACITY)"
    apply (rule Cons.IH)
    using s3 b2' apply simp
    using ps' lX' apply simp
    using Cons.prems(3) apply simp
    done
  have offeq: "length ?X' + (cap + 5) * length its + length ?B' = ?off + length (payload it)"
    using lX' by simp
  from ih have ih1: "d = ?X' @ index_entries (index_entry cap) payload
                 (?off + length (payload it)) its @ ?B' @ concat (map payload its)"
    and ih2: "\<forall>it\<in>set its. \<forall>v. customValue it = Some v \<longrightarrow> v \<le> 9007199254740991"
    and ih3: "its \<noteq> [] \<longrightarrow> length d \<le> CAPACITY"
    unfolding offeq by blast+
  have dlen: "length d \<le> CAPACITY"
  proof (cases "its = []")
    case True
    with s3 cap2 show ?thesis by simp
  next
    case False
    with ih3 show ?thesis by blast
  qed
  have "d = X @ index_entries (index_entry cap) payload ?off (it # its)
               @ B @ concat (map payload (it # its))"
    using ih1 by simp
  moreover have "\<forall>it\<in>set (it # its). \<forall>v. customValue it = Some v \<longrightarrow> v \<le> 9007199254740991"
    using ih2 cv by simp
  ultimately show ?case using dlen by blast
qed

lemma length_header [simp]: "length (header n cap nv rv) = 21"
  by (simp add: header_def)

lemma generateRaw_inv:
  assumes "generateRaw nv rv items = Inr d"
  shows "d = layout nv rv items"
    and "name_cap items \<le> 63"
    and "\<forall>it\<in>set items. length (name it) \<le> name_cap items \<and> length (target it) \<le> 255
           \<and> (\<forall>v. customValue it = Some v \<longrightarrow> v \<le> 9007199254740991)"
    and "nv \<le> 9007199254740991" and "rv \<le> 9007199254740991"
    and "length d \<le> CAPACITY"
proof -
  let ?cap = "name_cap items"
  let ?lt = "largest 0 (map (\<lambda>item. length (target item)) items)"
  from assms have c63: "?cap \<le> 63" and t255: "?lt \<le> 255"
    by (auto simp: generateRaw_def name_cap_def Let_def split: if_splits)
  have nm: "\<forall>it\<in>set items. length (name it) \<le> ?cap"
    unfolding name_cap_def by (auto intro!: largest_upper)
  have "\<forall>it\<in>set items. length (target it) \<le> ?lt"
    by (auto intro!: largest_upper)
  with t255 have tg: "\<forall>it\<in>set items. length (target it) \<le> 255" by fastforce
  from assms c63 t255 obtain bw1 poss where
    wi: "write_index ?cap items (header (length items) ?cap nv rv) = Inr (bw1, poss)"
    and wp: "write_payloads (zip items poss) bw1 = Inr d"
    and sf: "nv \<le> 9007199254740991" "rv \<le> 9007199254740991"
    by (auto simp: generateRaw_def name_cap_def Let_def seq_Inr_iff writeU32_def writeU8_def
        writeU64_def put_Inr_iff safe_def header_def split: if_splits prod.splits)
  from write_index_inv[OF wi nm c63] have
    b1: "bw1 = header (length items) ?cap nv rv @ concat (map (\<lambda>it. index_entry ?cap it 0) items)"
    and ps: "poss = name_positions ?cap (length (header (length items) ?cap nv rv)) (length items)"
    by (simp_all add: name_positions_def)
  have wp': "write_payloads (zip items poss)
      (header (length items) ?cap nv rv @ concat (map (\<lambda>it. index_entry ?cap it 0) items) @ []) = Inr d"
    using wp b1 by simp
  have both: "\<forall>it\<in>set items. length (name it) \<le> ?cap \<and> length (target it) \<le> 255"
    using nm tg by blast
  note inv = write_payloads_inv[OF wp' ps both]
  from inv show "d = layout nv rv items" by (simp add: layout_def)
  show "?cap \<le> 63" by (rule c63)
  from inv nm tg show "\<forall>it\<in>set items. length (name it) \<le> name_cap items \<and> length (target it) \<le> 255
           \<and> (\<forall>v. customValue it = Some v \<longrightarrow> v \<le> 9007199254740991)" by blast
  show "nv \<le> 9007199254740991" "rv \<le> 9007199254740991" by (rule sf)+
  show "length d \<le> CAPACITY"
  proof (cases "items = []")
    case True
    with wp b1 have "d = header 0 (name_cap []) nv rv" by simp
    then have "length d = 21" by simp
    then show ?thesis by (simp add: CAPACITY_def)
  next
    case False
    with inv show ?thesis by blast
  qed
qed

lemma le_bytes_numeral:
  "le_bytes (numeral k) v = (v mod 256) # le_bytes (pred_numeral k) (v div 256)"
proof -
  have "numeral k = Suc (pred_numeral k)" by (rule numeral_eq_Suc)
  then show ?thesis by (simp only: le_bytes.simps)
qed

lemma le_bytes_1: "le_bytes 1 v = [v mod 256]"
proof -
  have "le_bytes (Suc 0) v = [v mod 256]" by simp
  then show ?thesis by (simp only: One_nat_def)
qed

lemma le_bytes4_value:
  "v mod 256 + 256 * (v div 256 mod 256) + 65536 * (v div 256 div 256 mod 256)
     + 16777216 * (v div 256 div 256 div 256 mod 256) = (v::nat) mod 4294967296"
proof -
  have a: "v mod 4294967296 = 256 * (v div 256 mod 16777216) + v mod 256"
    using mod_mult2_eq[of v 256 16777216] by simp
  have b: "v div 256 mod 16777216 = 256 * (v div 256 div 256 mod 65536) + v div 256 mod 256"
    using mod_mult2_eq[of "v div 256" 256 65536] by simp
  have c: "v div 256 div 256 mod 65536
             = 256 * (v div 256 div 256 div 256 mod 256) + v div 256 div 256 mod 256"
    using mod_mult2_eq[of "v div 256 div 256" 256 256] by simp
  show ?thesis unfolding a b c by simp
qed

lemma at_mid: "k < length s \<Longrightarrow> at (pre @ s @ post) (length pre + k) = Some (s ! k)"
  by (simp add: at_def nth_append)

lemma nth_mid: "k < length s \<Longrightarrow> (pre @ s @ post) ! (length pre + k) = s ! k"
  by (simp add: nth_append)

lemma readUInt32LE_mid:
  "readUInt32LE (pre @ le_bytes 4 v @ post) (length pre) = Inr (v mod 4294967296)"
proof -
  let ?d = "pre @ le_bytes 4 v @ post"
  have n: "\<And>k. k < 4 \<Longrightarrow> ?d ! (length pre + k) = le_bytes 4 v ! k"
    by (rule nth_mid) simp
  have b: "le_bytes 4 v = [v mod 256, v div 256 mod 256, v div 256 div 256 mod 256,
                           v div 256 div 256 div 256 mod 256]"
    by (simp add: le_bytes_numeral le_bytes_1)
  have "?d ! (length pre) = v mod 256" using n[of 0] b by simp
  moreover have "?d ! (length pre + 1) = v div 256 mod 256" using n[of 1] b by simp
  moreover have "?d ! (length pre + 2) = v div 256 div 256 mod 256" using n[of 2] b by simp
  moreover have "?d ! (length pre + 3) = v div 256 div 256 div 256 mod 256" using n[of 3] b by simp
  moreover have "length pre + 4 \<le> length ?d" by simp
  ultimately show ?thesis
    unfolding readUInt32LE_def using le_bytes4_value[of v] by simp
qed

lemma to_double_exact: "n < 9007199254740992 \<Longrightarrow> to_double n = n"
  by (simp add: to_double_def)

lemma le_bytes_add: "le_bytes (j + k) v = le_bytes j v @ le_bytes k (v div 256 ^ j)"
proof (induction j arbitrary: v)
  case 0
  show ?case by simp
next
  case (Suc j)
  have "v div 256 div 256 ^ j = v div 256 ^ Suc j"
    by (simp add: div_mult2_eq)
  then show ?case using Suc.IH[of "v div 256"] by simp
qed

lemma le_bytes8_split: "le_bytes 8 v = le_bytes 4 v @ le_bytes 4 (v div 4294967296)"
  using le_bytes_add[of 4 4 v] by simp

lemma readU64_mid:
  assumes "v \<le> 9007199254740991"
  shows "readU64 (pre @ le_bytes 8 v @ post) (length pre) = Inr v"
proof -
  let ?hi = "v div 4294967296" and ?lo = "v mod 4294967296"
  have d: "pre @ le_bytes 8 v @ post = pre @ le_bytes 4 v @ (le_bytes 4 ?hi @ post)"
    by (simp add: le_bytes8_split)
  have d2: "pre @ le_bytes 8 v @ post = (pre @ le_bytes 4 v) @ le_bytes 4 ?hi @ post"
    by (simp add: le_bytes8_split)
  have lo: "readUInt32LE (pre @ le_bytes 8 v @ post) (length pre) = Inr ?lo"
    unfolding d by (rule readUInt32LE_mid)
  have "readUInt32LE ((pre @ le_bytes 4 v) @ le_bytes 4 ?hi @ post) (length (pre @ le_bytes 4 v))
        = Inr (?hi mod 4294967296)"
    by (rule readUInt32LE_mid)
  then have hi: "readUInt32LE (pre @ le_bytes 8 v @ post) (length pre + 4) = Inr ?hi"
    unfolding d2 using assms by simp
  have "js_add (js_mul ?hi 4294967296) ?lo = v"
  proof -
    have "?hi * 4294967296 \<le> v" by simp
    with assms have "js_mul ?hi 4294967296 = ?hi * 4294967296"
      by (simp add: js_mul_def to_double_exact)
    moreover have "?hi * 4294967296 + ?lo = v" by simp
    ultimately show ?thesis using assms by (simp add: js_add_def to_double_exact)
  qed
  then show ?thesis using lo hi by (simp add: readU64_def)
qed

lemma cmp_prefix_take:
  "cmp_prefix (take (min (length s) (length b)) s) (take (min (length s) (length b)) b) = cmp_prefix s b"
  by (induction s b rule: cmp_prefix.induct) auto

lemma Buffer_compare_Cons:
  "Buffer_compare (x # xs) (y # ys)
     = (if x < y then - 1 else if y < x then 1 else Buffer_compare xs ys)"
  by (simp add: Buffer_compare_def)

lemma Buffer_compare_Nil:
  "Buffer_compare [] ys = (if ys = [] then 0 else - 1)"
  "Buffer_compare xs [] = (if xs = [] then 0 else 1)"
  by (cases ys; simp add: Buffer_compare_def) (cases xs; simp add: Buffer_compare_def)

lemma Buffer_compare_less: "Buffer_compare a b < 0 \<longleftrightarrow> a < b"
proof (induction a arbitrary: b)
  case Nil
  show ?case by (cases b) (simp_all add: Buffer_compare_Nil)
next
  case (Cons x xs)
  show ?case
  proof (cases b)
    case Nil
    then show ?thesis by (simp add: Buffer_compare_Nil)
  next
    case (Cons y ys)
    then show ?thesis using Cons.IH[of ys] by (auto simp: Buffer_compare_Cons)
  qed
qed

lemma Buffer_compare_eq: "Buffer_compare a b = 0 \<longleftrightarrow> a = b"
proof (induction a arbitrary: b)
  case Nil
  show ?case by (cases b) (simp_all add: Buffer_compare_Nil)
next
  case (Cons x xs)
  show ?case
  proof (cases b)
    case Nil
    then show ?thesis by (simp add: Buffer_compare_Nil)
  next
    case (Cons y ys)
    then show ?thesis using Cons.IH[of ys] by (auto simp: Buffer_compare_Cons)
  qed
qed

lemma Buffer_compare_greater: "0 < Buffer_compare a b \<longleftrightarrow> b < a"
proof (induction a arbitrary: b)
  case Nil
  show ?case by (cases b) (simp_all add: Buffer_compare_Nil)
next
  case (Cons x xs)
  show ?case
  proof (cases b)
    case Nil
    then show ?thesis by (simp add: Buffer_compare_Nil)
  next
    case (Cons y ys)
    then show ?thesis using Cons.IH[of ys] by (auto simp: Buffer_compare_Cons)
  qed
qed

lemma elem_mid: "k < length s \<Longrightarrow> elem chk (pre @ s @ post) (length pre + k) = Inr (Some (s ! k))"
  by (simp add: elem_def at_def nth_append)

lemma elem_in: "k < length d \<Longrightarrow> elem chk d k = Inr (Some (d ! k))"
  by (simp add: elem_def at_def)

lemma compare_loop_prefix:
  assumes "len \<le> length s" and "len \<le> length b" and "i \<le> len"
  shows "compare_loop chk (pre @ s @ post) b (length pre) len i
       = Inr (cmp_prefix (drop i (take len s)) (drop i (take len b)))"
  using assms
proof (induction "len - i" arbitrary: i)
  case 0
  then have "i = len" by simp
  then show ?case using 0 by (simp add: compare_loop.simps)
next
  case (Suc n)
  then have il: "i < len" by simp
  have ils: "i < length s" and ib: "i < length b" using il Suc.prems by simp_all
  have ds: "drop i (take len s) = s ! i # drop (Suc i) (take len s)"
    using il ils by (simp add: Cons_nth_drop_Suc[symmetric])
  have db: "drop i (take len b) = b ! i # drop (Suc i) (take len b)"
    using il ib by (simp add: Cons_nth_drop_Suc[symmetric])
  have ih: "compare_loop chk (pre @ s @ post) b (length pre) len (Suc i)
       = Inr (cmp_prefix (drop (Suc i) (take len s)) (drop (Suc i) (take len b)))"
    using Suc.hyps(1)[of "Suc i"] Suc.hyps(2) Suc.prems il by simp
  show ?case
    apply (subst compare_loop.simps)
    using il ih by (simp add: elem_mid[OF ils] elem_in[OF ib] js_lt_def js_gt_def ds db)
qed

lemma Reserved_compare_entry:
  assumes "data t = pre @ index_entry cap it off @ post" and "length (name it) \<le> cap"
  shows "Reserved_compare chk t key (length pre + 1) = Inr (Buffer_compare (Buffer_from (name it)) key)"
proof -
  let ?s = "Buffer_from (name it)"
  let ?len = "min (length ?s) (length key)"
  have e0: "elem chk (data t) (length pre) = Inr (Some (length (name it)))"
    unfolding assms(1) using elem_mid[of 0 "index_entry cap it off" chk pre post]
    by (simp add: index_entry_def)
  have d: "data t = (pre @ [length (name it)]) @ ?s
             @ (replicate (cap - length (name it)) 0 @ le_bytes 4 off @ post)"
    unfolding assms(1) by (simp add: index_entry_def)
  have "compare_loop chk ((pre @ [length (name it)]) @ ?s
             @ (replicate (cap - length (name it)) 0 @ le_bytes 4 off @ post)) key
           (length (pre @ [length (name it)])) ?len 0
        = Inr (cmp_prefix (drop 0 (take ?len ?s)) (drop 0 (take ?len key)))"
    by (rule compare_loop_prefix) simp_all
  then have cl: "compare_loop chk (data t) key (length pre + 1) ?len 0 = Inr (cmp_prefix ?s key)"
    unfolding d[symmetric] by (simp add: cmp_prefix_take)
  have ls: "length ?s = length (name it)" by (simp add: Buffer_from_def)
  have lenq: "(if length (name it) < length key then length (name it) else length key) = ?len"
    using ls by simp
  show ?thesis
    unfolding Reserved_compare_def Let_def
    using e0 cl lenq ls
    by (simp add: js_lt_def js_gt_def Buffer_compare_def split: option.splits)
qed

lemma index_entries_nth:
  assumes "i < length its" and "\<forall>it\<in>set its. \<forall>off. length (ent it off) = w"
  shows "\<exists>pre post. index_entries ent pay off its = pre @ ent (its ! i) (pay_off pay off its i) @ post
                    \<and> length pre = i * w"
  using assms
proof (induction its arbitrary: i off)
  case Nil
  then show ?case by simp
next
  case (Cons it its)
  show ?case
  proof (cases i)
    case 0
    have "index_entries ent pay off (it # its)
         = [] @ ent it off @ index_entries ent pay (off + length (pay it)) its" by simp
    then show ?thesis using 0 by (auto simp: pay_off_def)
  next
    case (Suc j)
    with Cons.prems have j: "j < length its" by simp
    from Cons.IH[OF j, of "off + length (pay it)"] Cons.prems(2)
    obtain pre post where
      e: "index_entries ent pay (off + length (pay it)) its
            = pre @ ent (its ! j) (pay_off pay (off + length (pay it)) its j) @ post"
      and l: "length pre = j * w" by auto
    have po: "pay_off pay (off + length (pay it)) its j = pay_off pay off (it # its) i"
      using Suc by (simp add: pay_off_def)
    have "index_entries ent pay off (it # its)
         = (ent it off @ pre) @ ent ((it # its) ! i) (pay_off pay off (it # its) i) @ post"
      using e po Suc by simp
    moreover have "length (ent it off @ pre) = i * w"
      using l Suc Cons.prems(2) by simp
    ultimately show ?thesis by blast
  qed
qed

lemma length_index_entries:
  assumes "\<forall>it\<in>set its. \<forall>off. length (ent it off) = w"
  shows "length (index_entries ent pay off its) = w * length its"
  using assms by (induction its arbitrary: off) simp_all

lemma concat_map_nth:
  assumes "i < length its"
  shows "concat (map pay its) = concat (map pay (take i its)) @ pay (its ! i) @ concat (map pay (drop (Suc i) its))"
proof -
  have "its = take i its @ its ! i # drop (Suc i) its"
    using assms by (rule id_take_nth_drop)
  then have "concat (map pay its) = concat (map pay (take i its @ its ! i # drop (Suc i) its))"
    by simp
  then show ?thesis by simp
qed

lemma mid_index:
  assumes "0 \<le> start" and "start \<le> endi" and "endi < 2147483648"
  shows "((start + endi) mod 4294967296) div 2 = (start + endi) div (2::int)"
    and "start \<le> (start + endi) div 2" and "(start + endi) div 2 \<le> endi"
  using assms by simp_all

lemma find_loop_absent:
  assumes cmp: "\<forall>m<n. Reserved_compare chk t key (offset t + m * indexSize t + 1)
                      = Inr (Buffer_compare (ks ! m) key)"
    and n: "n < 2147483648" "length ks = n"
    and absent: "key \<notin> set ks"
    and range: "0 \<le> start" "endi < int n"
  shows "find_loop chk t key start endi = Some (Inr (- 1))"
  using range
proof (induction "nat (endi - start + 1)" arbitrary: start endi rule: less_induct)
  case less
  show ?case
  proof (cases "start \<le> endi")
    case False
    then show ?thesis by (subst find_loop.simps) simp
  next
    case True
    define index where "index = (start + endi) div 2"
    have ix: "((start + endi) mod 4294967296) div 2 = index"
      unfolding index_def using mid_index(1)[OF less.prems(1) True] less.prems(2) n(1) by simp
    have lo: "start \<le> index" and hi: "index \<le> endi"
      unfolding index_def using True by simp_all
    have m: "nat index < n" using hi less.prems lo by simp
    have c: "Reserved_compare chk t key (offset t + nat index * indexSize t + 1)
              = Inr (Buffer_compare (ks ! nat index) key)"
      using cmp m by blast
    have "ks ! nat index \<in> set ks" using m n(2) by simp
    with absent have ne: "ks ! nat index \<noteq> key" by blast
    then have c0: "Buffer_compare (ks ! nat index) key \<noteq> 0"
      by (simp add: Buffer_compare_eq)
    have r1: "find_loop chk t key (index + 1) endi = Some (Inr (- 1))"
      by (rule less.hyps) (use lo hi less.prems in simp_all)
    have r2: "find_loop chk t key start (index - 1) = Some (Inr (- 1))"
      by (rule less.hyps) (use lo hi less.prems in simp_all)
    show ?thesis
      apply (subst find_loop.simps)
      using True ix c c0 r1 r2 by (simp add: Let_def)
  qed
qed

lemma find_loop_present:
  assumes cmp: "\<forall>m<n. Reserved_compare chk t key (offset t + m * indexSize t + 1)
                      = Inr (Buffer_compare (ks ! m) key)"
    and rd: "readU32 (data t) (offset t + j * indexSize t + 1 + nameSize t) = Inr p"
    and n: "n < 2147483648" "length ks = n"
    and sorted: "sorted_wrt (<) ks"
    and j: "j < n" "ks ! j = key"
    and range: "0 \<le> start" "start \<le> int j" "int j \<le> endi" "endi < int n"
  shows "find_loop chk t key start endi = Some (Inr (int p))"
  using range
proof (induction "nat (endi - start + 1)" arbitrary: start endi rule: less_induct)
  case less
  have True: "start \<le> endi" using less.prems by simp
  define index where "index = (start + endi) div 2"
  have ix: "((start + endi) mod 4294967296) div 2 = index"
    unfolding index_def using mid_index(1)[OF less.prems(1) True] less.prems(4) n(1) by simp
  have lo: "start \<le> index" and hi: "index \<le> endi"
    unfolding index_def using True by simp_all
  have m: "nat index < n" using hi less.prems lo by simp
  have c: "Reserved_compare chk t key (offset t + nat index * indexSize t + 1)
            = Inr (Buffer_compare (ks ! nat index) key)"
    using cmp m by blast
  consider (eq) "nat index = j" | (lt) "nat index < j" | (gt) "j < nat index" by linarith
  then show ?case
  proof cases
    case eq
    then have "Buffer_compare (ks ! nat index) key = 0"
      using j(2) by (simp add: Buffer_compare_eq)
    then show ?thesis
      apply (subst find_loop.simps)
      using True ix c rd eq by (simp add: Let_def)
  next
    case lt
    then have "ks ! nat index < ks ! j"
      using sorted j(1) n(2) by (simp add: sorted_wrt_nth_less)
    then have c1: "Buffer_compare (ks ! nat index) key < 0"
      using j(2) by (simp add: Buffer_compare_less)
    have r1: "find_loop chk t key (index + 1) endi = Some (Inr (int p))"
      by (rule less.hyps) (use lo hi lt less.prems in simp_all)
    show ?thesis
      apply (subst find_loop.simps)
      using True ix c c1 r1 by (simp add: Let_def)
  next
    case gt
    then have "ks ! j < ks ! nat index"
      using sorted m n(2) by (simp add: sorted_wrt_nth_less)
    then have c1: "0 < Buffer_compare (ks ! nat index) key"
      using j(2) by (simp add: Buffer_compare_greater)
    have r2: "find_loop chk t key start (index - 1) = Some (Inr (int p))"
      by (rule less.hyps) (use lo hi gt less.prems in simp_all)
    show ?thesis
      apply (subst find_loop.simps)
      using True ix c c1 r2 by (simp add: Let_def)
  qed
qed

lemma layout_entry:
  assumes "m < length items" and "\<forall>it\<in>set items. length (name it) \<le> name_cap items"
  shows "\<exists>pre post. layout nv rv items
            = pre @ index_entry (name_cap items) (items ! m) (name_off items m) @ post
          \<and> length pre = 21 + m * (name_cap items + 5)"
proof -
  let ?cap = "name_cap items"
  have w: "\<forall>it\<in>set items. \<forall>off. length (index_entry ?cap it off) = ?cap + 5"
    using assms(2) by (simp add: length_index_entry)
  from index_entries_nth[OF assms(1) w, of payload "21 + (?cap + 5) * length items"]
  obtain pre post where
    e: "index_entries (index_entry ?cap) payload (21 + (?cap + 5) * length items) items
          = pre @ index_entry ?cap (items ! m) (name_off items m) @ post"
    and l: "length pre = m * (?cap + 5)"
    unfolding name_off_def by blast
  have "layout nv rv items = (header (length items) ?cap nv rv @ pre)
           @ index_entry ?cap (items ! m) (name_off items m) @ (post @ concat (map payload items))"
    unfolding layout_def e by simp
  moreover have "length (header (length items) ?cap nv rv @ pre) = 21 + m * (?cap + 5)"
    using l by simp
  ultimately show ?thesis by blast
qed

lemma layout_payload:
  assumes "m < length items" and "\<forall>it\<in>set items. length (name it) \<le> name_cap items"
  shows "\<exists>pre post. layout nv rv items = pre @ payload (items ! m) @ post
          \<and> length pre = name_off items m"
proof -
  let ?cap = "name_cap items"
  let ?idx = "index_entries (index_entry ?cap) payload (21 + (?cap + 5) * length items) items"
  have w: "\<forall>it\<in>set items. \<forall>off. length (index_entry ?cap it off) = ?cap + 5"
    using assms(2) by (simp add: length_index_entry)
  have li: "length ?idx = (?cap + 5) * length items"
    by (rule length_index_entries[OF w])
  let ?pre = "header (length items) ?cap nv rv @ ?idx @ concat (map payload (take m items))"
  have "layout nv rv items = ?pre @ payload (items ! m) @ concat (map payload (drop (Suc m) items))"
    unfolding layout_def using concat_map_nth[OF assms(1), of payload] by simp
  moreover have "length ?pre = name_off items m"
    using li by (simp add: name_off_def pay_off_def)
  ultimately show ?thesis by blast
qed

lemma length_layout_ge:
  assumes "\<forall>it\<in>set items. length (name it) \<le> name_cap items"
  shows "21 + 5 * length items \<le> length (layout nv rv items)"
proof -
  let ?cap = "name_cap items"
  have w: "\<forall>it\<in>set items. \<forall>off. length (index_entry ?cap it off) = ?cap + 5"
    using assms by (simp add: length_index_entry)
  have "length (index_entries (index_entry ?cap) payload (21 + (?cap + 5) * length items) items)
          = (?cap + 5) * length items"
    by (rule length_index_entries[OF w])
  then show ?thesis by (simp add: layout_def add_mult_distrib)
qed

lemma Reserved_layout:
  assumes "length items < 4294967296" and "nv \<le> 9007199254740991" and "rv \<le> 9007199254740991"
  shows "Reserved (layout nv rv items) = Inr (opened nv rv items)"
proof -
  let ?cap = "name_cap items"
  let ?n = "length items"
  let ?rest = "index_entries (index_entry ?cap) payload (21 + (?cap + 5) * ?n) items
                 @ concat (map payload items)"
  let ?d = "layout nv rv items"
  have d0: "?d = [] @ le_bytes 4 ?n @ ([?cap] @ le_bytes 8 nv @ le_bytes 8 rv @ ?rest)"
    by (simp add: layout_def header_def)
  have d4: "?d = le_bytes 4 ?n @ [?cap] @ (le_bytes 8 nv @ le_bytes 8 rv @ ?rest)"
    by (simp add: layout_def header_def)
  have d5: "?d = (le_bytes 4 ?n @ [?cap]) @ le_bytes 8 nv @ (le_bytes 8 rv @ ?rest)"
    by (simp add: layout_def header_def)
  have d13: "?d = (le_bytes 4 ?n @ [?cap] @ le_bytes 8 nv) @ le_bytes 8 rv @ ?rest"
    by (simp add: layout_def header_def)
  have "readUInt32LE ([] @ le_bytes 4 ?n @ ([?cap] @ le_bytes 8 nv @ le_bytes 8 rv @ ?rest)) (length ([]::nat list))
        = Inr (?n mod 4294967296)"
    by (rule readUInt32LE_mid)
  then have r0: "readU32 ?d 0 = Inr ?n"
    unfolding d0[symmetric] readU32_def using assms(1) by simp
  have "at (le_bytes 4 ?n @ [?cap] @ (le_bytes 8 nv @ le_bytes 8 rv @ ?rest)) (length (le_bytes 4 ?n) + 0)
        = Some ([?cap] ! 0)"
    by (rule at_mid) simp
  then have r4: "at ?d 4 = Some ?cap"
    unfolding d4[symmetric] by simp
  have "readU64 ((le_bytes 4 ?n @ [?cap]) @ le_bytes 8 nv @ (le_bytes 8 rv @ ?rest))
          (length (le_bytes 4 ?n @ [?cap])) = Inr nv"
    by (rule readU64_mid[OF assms(2)])
  then have r5: "readU64 ?d 5 = Inr nv"
    unfolding d5[symmetric] by simp
  have "readU64 ((le_bytes 4 ?n @ [?cap] @ le_bytes 8 nv) @ le_bytes 8 rv @ ?rest)
          (length (le_bytes 4 ?n @ [?cap] @ le_bytes 8 nv)) = Inr rv"
    by (rule readU64_mid[OF assms(3)])
  then have r13: "readU64 ?d 13 = Inr rv"
    unfolding d13[symmetric] by simp
  show ?thesis
    unfolding Reserved_def using r0 r4 r5 r13 by (simp add: opened_def)
qed

lemma payload_target:
  assumes "data t = pre @ payload it @ post"
  shows "Reserved_target chk t (length pre) = Inr (map (\<lambda>b. char_of (b mod 128)) (Buffer_from (target it)))"
proof -
  have e: "elem chk (data t) (length pre) = Inr (Some (length (target it)))"
    unfolding assms using elem_mid[of 0 "payload it" chk pre post] by (simp add: payload_def)
  have l: "length pre + 1 + length (target it) \<le> length (data t)"
    unfolding assms by (simp add: payload_def Buffer_from_def)
  have "take (length (target it)) (drop (length pre + 1) (data t)) = Buffer_from (target it)"
    unfolding assms by (simp add: payload_def Buffer_from_def)
  then show ?thesis
    unfolding Reserved_target_def using e l by (simp add: toString_ascii_def)
qed

lemma ascii_roundtrip:
  assumes "\<forall>c\<in>set s. (of_char c :: nat) < 128"
  shows "map (\<lambda>b. char_of (b mod 128)) (Buffer_from s) = s"
  using assms by (induction s) (simp_all add: Buffer_from_def)

lemma payload_flags:
  assumes "data t = pre @ payload it @ post"
  shows "Reserved_flags chk t (length pre) = Inr (Some (flags_of it))"
proof -
  have e: "elem chk (data t) (length pre) = Inr (Some (length (target it)))"
    unfolding assms using elem_mid[of 0 "payload it" chk pre post] by (simp add: payload_def)
  have k: "1 + length (target it) < length (payload it)"
    by (simp add: payload_def Buffer_from_def)
  have "payload it ! (1 + length (target it)) = flags_of it"
    by (simp add: payload_def Buffer_from_def nth_append)
  with elem_mid[OF k, of chk pre post]
  have "elem chk (data t) (length pre + 1 + length (target it)) = Inr (Some (flags_of it))"
    unfolding assms by (simp add: add.assoc)
  then show ?thesis unfolding Reserved_flags_def using e by simp
qed

lemma payload_value:
  assumes "data t = pre @ payload it @ post" and "customValue it = Some v"
    and "v \<le> 9007199254740991"
  shows "Reserved_value chk t (length pre) = Inr v"
proof -
  have e: "elem chk (data t) (length pre) = Inr (Some (length (target it)))"
    unfolding assms(1) using elem_mid[of 0 "payload it" chk pre post] by (simp add: payload_def)
  let ?p = "pre @ length (target it) # Buffer_from (target it) @ [flags_of it]"
  have d: "data t = ?p @ le_bytes 8 v @ post"
    unfolding assms(1) using assms(2) by (simp add: payload_def)
  have "readU64 (?p @ le_bytes 8 v @ post) (length ?p) = Inr v"
    by (rule readU64_mid[OF assms(3)])
  then have "readU64 (data t) (length pre + 1 + length (target it) + 1) = Inr v"
    unfolding d[symmetric] by (simp add: Buffer_from_def)
  then show ?thesis unfolding Reserved_value_def using e by simp
qed

lemma flags_of_bits:
  "js_and (Some (flags_of it)) (Suc 0) = (if root it then 1 else 0)"
  "js_and (Some (flags_of it)) 1 = (if root it then 1 else 0)"
  "js_and (Some (flags_of it)) 2 = (if name it \<in> set embargoes then 2 else 0)"
  "js_and (Some (flags_of it)) 4 = (if customValue it \<noteq> None then 4 else 0)"
  by (simp_all add: js_and_def flags_of_def)

lemma entry_offset_read:
  assumes "data t = pre @ index_entry cap it off @ post" and "length (name it) \<le> cap"
    and "off < 4294967296"
  shows "readU32 (data t) (length pre + 1 + cap) = Inr off"
proof -
  let ?p = "pre @ length (name it) # Buffer_from (name it) @ replicate (cap - length (name it)) 0"
  have d: "data t = ?p @ le_bytes 4 off @ post"
    unfolding assms(1) by (simp add: index_entry_def)
  have l: "length ?p = length pre + 1 + cap"
    using assms(2) by (simp add: Buffer_from_def)
  have "readUInt32LE (?p @ le_bytes 4 off @ post) (length ?p) = Inr (off mod 4294967296)"
    by (rule readUInt32LE_mid)
  then show ?thesis unfolding d[symmetric] l readU32_def using assms(3) by simp
qed

lemma encoded_facts:
  assumes enc: "generateRaw nv rv items = Inr d"
  shows "Reserved d = Inr (opened nv rv items)"
    and "length items < 2147483648"
    and "\<forall>m<length items. Reserved_compare chk (opened nv rv items) key
            (offset (opened nv rv items) + m * indexSize (opened nv rv items) + 1)
          = Inr (Buffer_compare (keys items ! m) key)"
    and "\<forall>m<length items. readU32 (data (opened nv rv items))
            (offset (opened nv rv items) + m * indexSize (opened nv rv items) + 1
              + nameSize (opened nv rv items)) = Inr (name_off items m)"
    and "\<forall>m<length items. \<exists>pre post. data (opened nv rv items) = pre @ payload (items ! m) @ post
            \<and> length pre = name_off items m"
    and "\<forall>it\<in>set items. length (name it) \<le> nameSize (opened nv rv items)"
    and "\<forall>it\<in>set items. \<forall>v. customValue it = Some v \<longrightarrow> v \<le> 9007199254740991"
proof -
  let ?t = "opened nv rv items"
  let ?cap = "name_cap items"
  note inv = generateRaw_inv[OF enc]
  have d: "d = layout nv rv items" by (rule inv(1))
  have nm: "\<forall>it\<in>set items. length (name it) \<le> ?cap" using inv(3) by blast
  have dl: "length (layout nv rv items) \<le> CAPACITY" using inv(6) d by simp
  have ge: "21 + 5 * length items \<le> length (layout nv rv items)"
    by (rule length_layout_ge[OF nm])
  show n: "length items < 2147483648" using dl ge by (simp add: CAPACITY_def)
  show "Reserved d = Inr ?t"
    unfolding d by (rule Reserved_layout) (use n inv(4,5) in simp_all)
  have dt: "data ?t = layout nv rv items" by (simp add: opened_def)
  show "\<forall>m<length items. Reserved_compare chk ?t key (offset ?t + m * indexSize ?t + 1)
          = Inr (Buffer_compare (keys items ! m) key)"
  proof (intro allI impI)
    fix m assume m: "m < length items"
    from layout_entry[OF m nm, of nv rv] obtain pre post where
      e: "data ?t = pre @ index_entry ?cap (items ! m) (name_off items m) @ post"
      and l: "length pre = 21 + m * (?cap + 5)" unfolding dt by blast
    have "length (name (items ! m)) \<le> ?cap" using nm m by simp
    from Reserved_compare_entry[OF e this, of chk key]
    show "Reserved_compare chk ?t key (offset ?t + m * indexSize ?t + 1)
          = Inr (Buffer_compare (keys items ! m) key)"
      using l m by (simp add: opened_def keys_def add.commute)
  qed
  show "\<forall>m<length items. readU32 (data ?t) (offset ?t + m * indexSize ?t + 1 + nameSize ?t)
          = Inr (name_off items m)"
  proof (intro allI impI)
    fix m assume m: "m < length items"
    from layout_entry[OF m nm, of nv rv] obtain pre post where
      e: "data ?t = pre @ index_entry ?cap (items ! m) (name_off items m) @ post"
      and l: "length pre = 21 + m * (?cap + 5)" unfolding dt by blast
    from layout_payload[OF m nm, of nv rv] obtain pre' post' where
      "layout nv rv items = pre' @ payload (items ! m) @ post'" "length pre' = name_off items m"
      by blast
    then have "name_off items m \<le> length (layout nv rv items)"
      by (metis le_add1 length_append)
    with dl have o: "name_off items m < 4294967296" by (simp add: CAPACITY_def)
    have "length (name (items ! m)) \<le> ?cap" using nm m by simp
    from entry_offset_read[OF e this o]
    show "readU32 (data ?t) (offset ?t + m * indexSize ?t + 1 + nameSize ?t) = Inr (name_off items m)"
      using l by (simp add: opened_def add.commute)
  qed
  show "\<forall>m<length items. \<exists>pre post. data ?t = pre @ payload (items ! m) @ post
            \<and> length pre = name_off items m"
    unfolding dt using layout_payload[OF _ nm] by blast
  show "\<forall>it\<in>set items. length (name it) \<le> nameSize ?t"
    using nm by (simp add: opened_def)
  show "\<forall>it\<in>set items. \<forall>v. customValue it = Some v \<longrightarrow> v \<le> 9007199254740991"
    using inv(3) by blast
qed

lemma get_absent:
  assumes enc: "generateRaw nv rv items = Inr d"
    and absent: "Buffer_from nm \<notin> set (keys items)"
  shows "Reserved_get chk (opened nv rv items) nm = Some (Inr None)"
    and "Reserved_has chk (opened nv rv items) nm
           = Some (Inr (if length nm = 0 \<or> nameSize (opened nv rv items) < length nm
                        then None else Some False))"
proof -
  let ?t = "opened nv rv items"
  note f = encoded_facts[OF enc]
  have "find_loop chk ?t (Buffer_from nm) 0 (int (length items) - 1) = Some (Inr (- 1))"
    by (rule find_loop_absent[OF f(3) f(2) _ absent]) (simp_all add: keys_def)
  then have fd: "Reserved_find chk ?t (Buffer_from nm) = Some (Inr (- 1))"
    by (simp add: Reserved_find_def opened_def)
  show "Reserved_get chk ?t nm = Some (Inr None)"
    unfolding Reserved_get_def using fd by simp
  show "Reserved_has chk ?t nm
           = Some (Inr (if length nm = 0 \<or> nameSize ?t < length nm then None else Some False))"
    unfolding Reserved_has_def using fd by simp
qed

lemma get_present:
  assumes enc: "generateRaw nv rv items = Inr d"
    and sorted: "sorted_wrt (<) (keys items)"
    and j: "j < length items" and ne: "name (items ! j) \<noteq> []"
  shows "Reserved_get chk (opened nv rv items) (name (items ! j))
           = Some (Inr (Some \<lparr>e_target = map (\<lambda>b. char_of (b mod 128)) (Buffer_from (target (items ! j))),
                               e_value = resolve nv rv (items ! j), e_root = root (items ! j)\<rparr>))"
    and "Reserved_has chk (opened nv rv items) (name (items ! j)) = Some (Inr (Some True))"
proof -
  let ?t = "opened nv rv items"
  let ?it = "items ! j"
  let ?key = "Buffer_from (name ?it)"
  note f = encoded_facts[OF enc]
  have rd: "readU32 (data ?t) (offset ?t + j * indexSize ?t + 1 + nameSize ?t) = Inr (name_off items j)"
    using f(4) j by blast
  have kj: "keys items ! j = ?key" using j by (simp add: keys_def)
  have "find_loop chk ?t ?key 0 (int (length items) - 1) = Some (Inr (int (name_off items j)))"
    by (rule find_loop_present[OF f(3) rd f(2) _ sorted j kj]) (use j in \<open>simp_all add: keys_def\<close>)
  then have fd: "Reserved_find chk ?t ?key = Some (Inr (int (name_off items j)))"
    by (simp add: Reserved_find_def opened_def)
  from f(5) j obtain pre post where
    p: "data ?t = pre @ payload ?it @ post" and lp: "length pre = name_off items j" by blast
  have len: "\<not> (length (name ?it) = 0 \<or> nameSize ?t < length (name ?it))"
    using ne f(6) j by (auto simp: not_less dest: nth_mem)
  have tg: "Reserved_target chk ?t (name_off items j)
              = Inr (map (\<lambda>b. char_of (b mod 128)) (Buffer_from (target ?it)))"
    using payload_target[OF p, of chk] lp by simp
  have fl: "Reserved_flags chk ?t (name_off items j) = Inr (Some (flags_of ?it))"
    using payload_flags[OF p, of chk] lp by simp
  have inset: "?it \<in> set items" using j by simp
  have vl: "Reserved_value chk ?t (name_off items j) = Inr v" if "customValue ?it = Some v" for v
  proof -
    from f(7) inset that have "v \<le> 9007199254740991" by blast
    from payload_value[OF p that this, of chk] lp show ?thesis by simp
  qed
  have nvrv: "rootValue ?t = rv" "nameValue ?t = nv" by (simp_all add: opened_def)
  show "Reserved_has chk ?t (name ?it) = Some (Inr (Some True))"
    unfolding Reserved_has_def using fd len by simp
  show "Reserved_get chk ?t (name ?it)
           = Some (Inr (Some \<lparr>e_target = map (\<lambda>b. char_of (b mod 128)) (Buffer_from (target ?it)),
                               e_value = resolve nv rv ?it, e_root = root ?it\<rparr>))"
  proof (cases "customValue ?it")
    case None
    show ?thesis
      unfolding Reserved_get_def using fd len tg fl None nvrv
      by (simp add: Let_def flags_of_bits resolve_def zeroed_def)
  next
    case (Some v)
    show ?thesis
      unfolding Reserved_get_def using fd len tg fl Some vl[OF Some] nvrv
      by (simp add: Let_def flags_of_bits resolve_def zeroed_def)
  qed
qed

lemmas enc_simps = generateRaw_def writeU8_def writeU32_def writeU64_def writeString_def fill_def
  put_def safe_def CAPACITY_def writeUInt32LE_def flags_of_def embargoes_def Buffer_from_def
  le_bytes_numeral le_bytes_1 Let_def

lemma Buffer_from_inj: "Buffer_from a = Buffer_from b \<Longrightarrow> a = b"
proof (induction a arbitrary: b)
  case Nil
  then show ?case by (simp add: Buffer_from_def)
next
  case (Cons x xs)
  then show ?case by (cases b) (auto simp: Buffer_from_def)
qed

lemma key_present:
  assumes "Buffer_from nm \<in> set (keys items)"
  shows "\<exists>j<length items. name (items ! j) = nm"
proof -
  from assms obtain j where j: "j < length (keys items)" and k: "keys items ! j = Buffer_from nm"
    by (auto simp: in_set_conv_nth)
  then have "j < length items" and "Buffer_from (name (items ! j)) = Buffer_from nm"
    by (simp_all add: keys_def)
  then show ?thesis using Buffer_from_inj by blast
qed

lemma get_total:
  assumes enc: "generateRaw nv rv items = Inr d"
    and sorted: "sorted_wrt (<) (keys items)"
  shows "\<exists>r. Reserved_get chk (opened nv rv items) nm = Some (Inr r)
           \<and> Reserved_has chk (opened nv rv items) nm
               = Some (Inr (if length nm = 0 \<or> nameSize (opened nv rv items) < length nm
                            then None else Some (r \<noteq> None)))"
proof (cases "Buffer_from nm \<in> set (keys items)")
  case False
  from get_absent[OF enc False, of chk] show ?thesis by simp
next
  case True
  then obtain j where j: "j < length items" and n: "name (items ! j) = nm"
    using key_present by blast
  show ?thesis
  proof (cases "nm = []")
    case True
    then show ?thesis by (simp add: Reserved_get_def Reserved_has_def)
  next
    case False
    then have ne: "name (items ! j) \<noteq> []" using n by simp
    have "length nm \<le> nameSize (opened nv rv items)"
      using encoded_facts(6)[OF enc] j n by (auto dest: nth_mem)
    with get_present[OF enc sorted j ne, of chk] n False show ?thesis by simp
  qed
qed

lemma scenario_encoded: "generateRaw 1000 2000 [bitcoin, com, cu] = Inr scenario_bytes"
  by (simp add: enc_simps com_def bitcoin_def cu_def scenario_bytes_def)

lemma scenario_sorted: "sorted_wrt (<) (keys [bitcoin, com, cu])"
  by (simp add: keys_def Buffer_from_def com_def bitcoin_def cu_def)

lemma scenario_valid:
  "\<forall>it\<in>set [bitcoin, com, cu]. name it \<noteq> [] \<and> (\<forall>c\<in>set (target it). (of_char c :: nat) < 128)"
  by (simp add: com_def bitcoin_def cu_def)






subsection \<open>Reading 64-bit fields; the scenario\<close>

lemma readU64_le_bytes:
  "readU64 (pre @ le_bytes 8 v @ post) (length pre)
     = Inr (js_add (js_mul (v div 4294967296 mod 4294967296) 4294967296) (v mod 4294967296))"
proof -
  let ?hi = "v div 4294967296"
  have d: "pre @ le_bytes 8 v @ post = pre @ le_bytes 4 v @ (le_bytes 4 ?hi @ post)"
    by (simp add: le_bytes8_split)
  have d2: "pre @ le_bytes 8 v @ post = (pre @ le_bytes 4 v) @ le_bytes 4 ?hi @ post"
    by (simp add: le_bytes8_split)
  have lo: "readUInt32LE (pre @ le_bytes 8 v @ post) (length pre) = Inr (v mod 4294967296)"
    unfolding d by (rule readUInt32LE_mid)
  have "readUInt32LE ((pre @ le_bytes 4 v) @ le_bytes 4 ?hi @ post) (length (pre @ le_bytes 4 v))
        = Inr (?hi mod 4294967296)"
    by (rule readUInt32LE_mid)
  then have hi: "readUInt32LE (pre @ le_bytes 8 v @ post) (length pre + 4) = Inr (?hi mod 4294967296)"
    unfolding d2 by simp
  show ?thesis using lo hi by (simp add: readU64_def)
qed

lemma bitlen_2_53: "bitlen 9007199254740992 = 54" "bitlen 9007199254740993 = 54"
  by (simp_all add: bitlen.simps)

lemma double_2_53: "to_double 9007199254740992 = 9007199254740992"
  by (simp add: to_double_def bitlen_2_53)

lemma double_2_53_1: "to_double 9007199254740993 = 9007199254740992"
  by (simp add: to_double_def bitlen_2_53)

lemma scenario_sort: "sort_by sortAlpha [com, bitcoin, cu] = [bitcoin, com, cu]"
  by (simp add: sort_by_def sortAlpha_def util_compare_def com_def bitcoin_def cu_def)

subsection \<open>Sorting with a comparator\<close>

lemma insert_by_insort_key:
  assumes "\<And>a b. cmp a b \<le> 0 \<longleftrightarrow> key a \<le> key b"
  shows "insert_by cmp x ys = insort_key key x ys"
  by (induction ys) (simp_all add: assms)

lemma sort_by_sort_key:
  assumes "\<And>a b. cmp a b \<le> 0 \<longleftrightarrow> key a \<le> key b"
  shows "sort_by cmp xs = sort_key key xs"
proof -
  have "insert_by cmp = insort_key key"
    by (intro ext) (rule insert_by_insort_key[OF assms])
  then show ?thesis by (simp add: sort_by_def sort_key_def)
qed

lemma Buffer_compare_le: "Buffer_compare a b \<le> 0 \<longleftrightarrow> a \<le> b"
proof -
  have "Buffer_compare a b \<le> 0 \<longleftrightarrow> Buffer_compare a b < 0 \<or> Buffer_compare a b = 0"
    by linarith
  then show ?thesis by (auto simp: Buffer_compare_less Buffer_compare_eq)
qed

lemma util_compare_bytes: "util_compare a b = Buffer_compare (Buffer_from a) (Buffer_from b)"
  by (simp add: util_compare_def Buffer_compare_def Buffer_from_def)

lemma sortAlpha_key: "sortAlpha a b \<le> 0 \<longleftrightarrow> Buffer_from (name a) \<le> Buffer_from (name b)"
  by (simp add: sortAlpha_def util_compare_bytes Buffer_compare_le)

lemma sortHash_key: "sortHash a b \<le> 0 \<longleftrightarrow> hash a \<le> hash b"
  by (simp add: sortHash_def Buffer_compare_le)

lemma sort_key_strict:
  assumes "distinct (map key xs)"
  shows "sorted_wrt (<) (map key (sort_key key xs))"
proof -
  have "distinct (map key (sort_key key xs))"
    using assms by (simp add: distinct_map)
  moreover have "sorted (map key (sort_key key xs))" by (rule sorted_sort_key)
  ultimately show ?thesis by (simp add: strict_sorted_iff)
qed

lemma sort_key_perm:
  assumes "distinct (map key xs)" and "distinct (map key ys)" and "set ys = set xs"
  shows "sort_key key ys = sort_key key xs"
proof -
  have s: "set (map key (sort_key key ys)) = set (map key (sort_key key xs))"
    using assms(3) by simp
  have "map key (sort_key key ys) = map key (sort_key key xs)"
    by (rule sorted_distinct_set_unique)
      (use assms s in \<open>simp_all add: distinct_map sorted_sort_key\<close>)
  moreover have "inj_on key (set (sort_key key ys) \<union> set (sort_key key xs))"
    using assms by (simp add: distinct_map)
  ultimately show ?thesis by (simp add: inj_on_map_eq_map)
qed

lemma distinct_keys:
  "distinct (map (\<lambda>it. Buffer_from (name it)) xs) \<longleftrightarrow> distinct (map name xs)"
proof -
  have "map (\<lambda>it. Buffer_from (name it)) xs = map Buffer_from (map name xs)" by simp
  moreover have "inj_on Buffer_from (set (map name xs))"
    by (rule inj_onI) (rule Buffer_from_inj)
  ultimately show ?thesis by (simp only: distinct_map) blast
qed

lemma sortAlpha_sorted:
  assumes "distinct (map name items)"
  shows "sorted_wrt (<) (keys (sort_by sortAlpha items))"
    and "set (sort_by sortAlpha items) = set items"
proof -
  have e: "sort_by sortAlpha items = sort_key (\<lambda>it. Buffer_from (name it)) items"
    by (rule sort_by_sort_key) (rule sortAlpha_key)
  show "sorted_wrt (<) (keys (sort_by sortAlpha items))"
    unfolding e keys_def by (rule sort_key_strict) (simp add: distinct_keys assms)
  show "set (sort_by sortAlpha items) = set items" unfolding e by simp
qed

lemma prefix_less: "xs < xs @ y # ys" for xs :: "nat list"
  by (induction xs) simp_all

lemma util_compare_sign:
  "util_compare a b = (if Buffer_from a < Buffer_from b then - 1 else if a = b then 0 else 1)"
proof -
  have r: "Buffer_compare x y \<in> {- 1, 0, 1}" for x y
    by (simp add: Buffer_compare_def split: option.splits)
      (induction x y rule: cmp_prefix.induct; auto)
  consider (l) "Buffer_from a < Buffer_from b" | (e) "a = b" | (g) "Buffer_from b < Buffer_from a"
    using Buffer_from_inj by (metis linorder_less_linear)
  then show ?thesis
  proof cases
    case l
    then have "Buffer_compare (Buffer_from a) (Buffer_from b) < 0" by (simp add: Buffer_compare_less)
    with r[of "Buffer_from a" "Buffer_from b"] l show ?thesis by (auto simp: util_compare_bytes)
  next
    case e
    then show ?thesis by (simp add: util_compare_bytes Buffer_compare_eq)
  next
    case g
    then have "0 < Buffer_compare (Buffer_from a) (Buffer_from b)" by (simp add: Buffer_compare_greater)
    with r[of "Buffer_from a" "Buffer_from b"] g show ?thesis
      by (auto simp: util_compare_bytes)
  qed
qed

lemma prefix_sort: "sort_by sortAlpha [com, co] = [co, com]"
  by (simp add: sort_by_def sortAlpha_def util_compare_def com_def co_def)

lemma prefix_encoded: "generateRaw 1000 2000 [co, com] = Inr prefix_bytes"
  by (simp add: enc_simps com_def co_def prefix_bytes_def)

subsection \<open>The hash table: what the encoder writes and what the reader finds\<close>

lemma length_hindex_entry: "length (hash it) = 32 \<Longrightarrow> length (hindex_entry it off) = 36"
  by (simp add: hindex_entry_def)

lemma hash_positions_Suc:
  "hash_positions base (Suc n) = (base + 32) # hash_positions (base + 36) n"
  by (simp add: hash_positions_def upt_conv_Cons map_Suc_upt[symmetric] del: upt_Suc)

lemma write_hindex_inv:
  assumes "write_hindex its bw = Inr (bw', ps)"
    and "\<forall>it\<in>set its. length (hash it) = 32"
  shows "bw' = bw @ concat (map (\<lambda>it. hindex_entry it 0) its)
       \<and> ps = hash_positions (length bw) (length its)"
  using assms
proof (induction its arbitrary: bw bw' ps)
  case Nil
  then show ?case by (simp add: hash_positions_def)
next
  case (Cons it its)
  from Cons.prems obtain bw1 bw2 ps2 where
    w1: "bw1 = bw @ hindex_entry it 0"
    and w2: "write_hindex its bw1 = Inr (bw2, ps2)"
    and r: "bw' = bw2" "ps = (length bw + 32) # ps2"
    by (auto simp: seq_Inr_iff writeBytes_def writeU32_def put_Inr_iff hindex_entry_def
        Let_def split: if_splits prod.splits)
  from Cons.IH[OF w2] Cons.prems(2) have
    ih: "bw2 = bw1 @ concat (map (\<lambda>it. hindex_entry it 0) its)"
        "ps2 = hash_positions (length bw1) (length its)"
    by simp_all
  have len1: "length bw1 = length bw + 36"
    using w1 Cons.prems(2) by (simp add: length_hindex_entry)
  show ?case using r ih w1 len1 by (simp add: hash_positions_Suc)
qed

lemma writeUInt32LE_hentry:
  assumes "length (hash it) = 32" and "p = length X + 32"
    and "writeUInt32LE v p (X @ hindex_entry it 0 @ R) = Inr bw1"
  shows "bw1 = X @ hindex_entry it v @ R \<and> v < 4294967296"
proof -
  define A where "A = X @ hash it"
  define D where "D = A @ le_bytes 4 0 @ R"
  have lA: "length A = p" using assms(1,2) by (simp add: A_def)
  have eq: "X @ hindex_entry it 0 @ R = D"
    by (simp add: hindex_entry_def A_def D_def)
  have w: "writeUInt32LE v p D = Inr bw1" using assms(3) unfolding eq .
  then have v: "v < 4294967296" and b: "bw1 = take p D @ le_bytes 4 v @ drop (p + 4) D"
    by (auto simp: writeUInt32LE_def split: if_splits)
  have "take p D @ le_bytes 4 v @ drop (p + 4) D = A @ le_bytes 4 v @ R"
    unfolding D_def by (rule patch_mid[OF lA]) simp
  moreover have "A @ le_bytes 4 v @ R = X @ hindex_entry it v @ R"
    by (simp add: hindex_entry_def A_def)
  ultimately show ?thesis using b v by simp
qed

lemma indexOf_range: "- 1 \<le> indexOf s c \<and> indexOf s c < int (length s)"
  by (induction s) (auto simp: Let_def)

lemma indexOf_label:
  assumes "c \<notin> set n"
  shows "indexOf (n @ c # rest) c = int (length n)"
  using assms by (induction n) (auto simp: Let_def)

lemma hpayload_append_inv:
  assumes "(if \<not> length (target it) \<le> 255 then Inl AssertionError
     else
       seq (writeU8 (int (length (target it))) bw1) (\<lambda>bw.
       seq (writeString (target it) bw) (\<lambda>bw.
       seq (writeU8 (int (flags_of it)) bw) (\<lambda>bw.
       seq (writeU8 (indexOf (target it) (CHR ''.'')) bw) (\<lambda>bw.
       (case customValue it of None \<Rightarrow> Inr bw | Some v \<Rightarrow> writeU64 v bw)))))) = Inr bw2"
  shows "bw2 = bw1 @ hpayload it \<and> length bw2 \<le> CAPACITY \<and> length (target it) \<le> 255
       \<and> (\<forall>v. customValue it = Some v \<longrightarrow> v \<le> 9007199254740991)"
proof -
  have f: "flags_of it < 8" by (rule flags_of_less)
  show ?thesis using assms f
    by (auto simp: seq_Inr_iff writeU8_def writeString_def writeU64_def put_Inr_iff
        hpayload_def Buffer_from_def safe_def split: if_splits option.splits)
qed

lemma write_hpayloads_inv:
  assumes "write_hpayloads (zip its ps) (X @ concat (map (\<lambda>it. hindex_entry it 0) its) @ B) = Inr d"
    and "ps = hash_positions (length X) (length its)"
    and "\<forall>it\<in>set its. length (hash it) = 32"
  shows "d = X @ index_entries hindex_entry hpayload (length X + 36 * length its + length B) its
               @ B @ concat (map hpayload its)
       \<and> (\<forall>it\<in>set its. length (target it) \<le> 255
              \<and> (\<forall>v. customValue it = Some v \<longrightarrow> v \<le> 9007199254740991))
       \<and> (its \<noteq> [] \<longrightarrow> length d \<le> CAPACITY)"
  using assms
proof (induction its arbitrary: X B ps d)
  case Nil
  then show ?case by simp
next
  case (Cons it its)
  let ?R = "concat (map (\<lambda>it. hindex_entry it 0) its) @ B"
  let ?bw = "X @ hindex_entry it 0 @ ?R"
  let ?off = "length X + 36 * length (it # its) + length B"
  have hl: "length (hash it) = 32" using Cons.prems(3) by simp
  have lens: "length (concat (map (\<lambda>it. hindex_entry it 0) its)) = 36 * length its"
    using Cons.prems(3) by (induction its) (simp_all add: length_hindex_entry)
  have lbw: "length ?bw = ?off"
    using hl lens by (simp add: length_hindex_entry)
  obtain ps' where ps: "ps = (length X + 32) # ps'"
    and ps': "ps' = hash_positions (length X + 36) (length its)"
    using Cons.prems(2) by (simp add: hash_positions_Suc)
  have bweq: "X @ concat (map (\<lambda>it. hindex_entry it 0) (it # its)) @ B = ?bw" by simp
  from Cons.prems(1) obtain bw1 bw2 where
    s1: "writeUInt32LE (length ?bw) (length X + 32) ?bw = Inr bw1"
    and s2: "(if \<not> length (target it) \<le> 255 then Inl AssertionError
     else
       seq (writeU8 (int (length (target it))) bw1) (\<lambda>bw.
       seq (writeString (target it) bw) (\<lambda>bw.
       seq (writeU8 (int (flags_of it)) bw) (\<lambda>bw.
       seq (writeU8 (indexOf (target it) (CHR ''.'')) bw) (\<lambda>bw.
       (case customValue it of None \<Rightarrow> Inr bw | Some v \<Rightarrow> writeU64 v bw)))))) = Inr bw2"
    and s3: "write_hpayloads (zip its ps') bw2 = Inr d"
    unfolding bweq ps by (auto simp: seq_Inr_iff split: if_splits)
  have "bw1 = X @ hindex_entry it (length ?bw) @ ?R"
    by (rule conjunct1[OF writeUInt32LE_hentry[OF hl refl s1]])
  then have b1: "bw1 = X @ hindex_entry it ?off @ ?R"
    by (simp only: lbw)
  from hpayload_append_inv[OF s2]
  have b2: "bw2 = bw1 @ hpayload it" and cap2: "length bw2 \<le> CAPACITY"
    and tl: "length (target it) \<le> 255"
    and cv: "\<forall>v. customValue it = Some v \<longrightarrow> v \<le> 9007199254740991" by blast+
  let ?X' = "X @ hindex_entry it ?off"
  let ?B' = "B @ hpayload it"
  have b2': "bw2 = ?X' @ concat (map (\<lambda>it. hindex_entry it 0) its) @ ?B'"
    using b1 b2 by simp
  have lX': "length ?X' = length X + 36" using hl by (simp add: length_hindex_entry)
  have ih: "d = ?X' @ index_entries hindex_entry hpayload
                 (length ?X' + 36 * length its + length ?B') its
               @ ?B' @ concat (map hpayload its)
       \<and> (\<forall>it\<in>set its. length (target it) \<le> 255
              \<and> (\<forall>v. customValue it = Some v \<longrightarrow> v \<le> 9007199254740991))
       \<and> (its \<noteq> [] \<longrightarrow> length d \<le> CAPACITY)"
    apply (rule Cons.IH)
    using s3 b2' apply simp
    using ps' lX' apply simp
    using Cons.prems(3) apply simp
    done
  have offeq: "length ?X' + 36 * length its + length ?B' = ?off + length (hpayload it)"
    using lX' by simp
  from ih have ih1: "d = ?X' @ index_entries hindex_entry hpayload
                 (?off + length (hpayload it)) its @ ?B' @ concat (map hpayload its)"
    and ih2: "\<forall>it\<in>set its. length (target it) \<le> 255
              \<and> (\<forall>v. customValue it = Some v \<longrightarrow> v \<le> 9007199254740991)"
    and ih3: "its \<noteq> [] \<longrightarrow> length d \<le> CAPACITY"
    unfolding offeq by blast+
  have dlen: "length d \<le> CAPACITY"
  proof (cases "its = []")
    case True
    with s3 cap2 show ?thesis by simp
  next
    case False
    with ih3 show ?thesis by blast
  qed
  have "d = X @ index_entries hindex_entry hpayload ?off (it # its)
               @ B @ concat (map hpayload (it # its))"
    using ih1 by simp
  moreover have "\<forall>it\<in>set (it # its). length (target it) \<le> 255
              \<and> (\<forall>v. customValue it = Some v \<longrightarrow> v \<le> 9007199254740991)"
    using ih2 cv tl by simp
  ultimately show ?case using dlen by blast
qed

lemma length_hheader [simp]: "length (hheader n nv rv) = 20"
  by (simp add: hheader_def)

lemma generateRawHash_inv:
  assumes "generateRawHash nv rv items0 = Inr d"
    and "\<forall>it\<in>set items0. length (hash it) = 32"
  shows "d = hlayout nv rv (sort_by sortHash items0)"
    and "\<forall>it\<in>set items0. length (target it) \<le> 255
           \<and> (\<forall>v. customValue it = Some v \<longrightarrow> v \<le> 9007199254740991)"
    and "nv \<le> 9007199254740991" and "rv \<le> 9007199254740991"
    and "length d \<le> CAPACITY"
proof -
  let ?items = "sort_by sortHash items0"
  have e: "?items = sort_key hash items0"
    by (rule sort_by_sort_key) (rule sortHash_key)
  have se: "set ?items = set items0" unfolding e by simp
  have hl: "\<forall>it\<in>set ?items. length (hash it) = 32" using assms(2) se by simp
  from assms(1) obtain bw1 poss where
    wi: "write_hindex ?items (hheader (length ?items) nv rv) = Inr (bw1, poss)"
    and wp: "write_hpayloads (zip ?items poss) bw1 = Inr d"
    and sf: "nv \<le> 9007199254740991" "rv \<le> 9007199254740991"
    by (auto simp: generateRawHash_def Let_def seq_Inr_iff writeU32_def
        writeU64_def put_Inr_iff safe_def hheader_def split: if_splits prod.splits)
  from write_hindex_inv[OF wi hl] have
    b1: "bw1 = hheader (length ?items) nv rv @ concat (map (\<lambda>it. hindex_entry it 0) ?items)"
    and ps: "poss = hash_positions (length (hheader (length ?items) nv rv)) (length ?items)"
    by simp_all
  have wp': "write_hpayloads (zip ?items poss)
      (hheader (length ?items) nv rv @ concat (map (\<lambda>it. hindex_entry it 0) ?items) @ []) = Inr d"
    using wp b1 by simp
  note inv = write_hpayloads_inv[OF wp' ps hl]
  from inv show "d = hlayout nv rv ?items" by (simp add: hlayout_def)
  from inv se show "\<forall>it\<in>set items0. length (target it) \<le> 255
           \<and> (\<forall>v. customValue it = Some v \<longrightarrow> v \<le> 9007199254740991)" by blast
  show "nv \<le> 9007199254740991" "rv \<le> 9007199254740991" by (rule sf)+
  show "length d \<le> CAPACITY"
  proof (cases "?items = []")
    case True
    with wp b1 have "d = hheader 0 nv rv" by simp
    then have "length d = 20" by simp
    then show ?thesis by (simp add: CAPACITY_def)
  next
    case False
    with inv show ?thesis by blast
  qed
qed

lemma hcompare_loop_prefix:
  assumes "length s = 32" and "length b = 32" and "i \<le> 32"
  shows "hcompare_loop (pre @ s @ post) b (length pre) i
       = (case cmp_prefix (drop i s) (drop i b) of Some c \<Rightarrow> c | None \<Rightarrow> 0)"
  using assms
proof (induction "32 - i" arbitrary: i)
  case 0
  then have "i = 32" by simp
  then show ?case using 0 by (simp add: hcompare_loop.simps)
next
  case (Suc n)
  then have il: "i < 32" by simp
  have ils: "i < length s" and ib: "i < length b" using il Suc.prems by simp_all
  have ds: "drop i s = s ! i # drop (Suc i) s"
    using ils by (simp add: Cons_nth_drop_Suc)
  have db: "drop i b = b ! i # drop (Suc i) b"
    using ib by (simp add: Cons_nth_drop_Suc)
  have ih: "hcompare_loop (pre @ s @ post) b (length pre) (Suc i)
       = (case cmp_prefix (drop (Suc i) s) (drop (Suc i) b) of Some c \<Rightarrow> c | None \<Rightarrow> 0)"
    using Suc.hyps(1)[of "Suc i"] Suc.hyps(2) Suc.prems il by simp
  have ax: "at (pre @ s @ post) (length pre + i) = Some (s ! i)" by (rule at_mid[OF ils])
  have ay: "at b i = Some (b ! i)" using ib by (simp add: at_def)
  show ?case
    apply (subst hcompare_loop.simps)
    using il ih by (simp add: ax ay js_lt_def js_gt_def ds db Let_def)
qed

lemma Hashed_compare_entry:
  assumes "hdata t = pre @ hindex_entry it off @ post" and "length (hash it) = 32"
    and "length key = 32"
  shows "Hashed_compare t key (length pre) = Buffer_compare (hash it) key"
proof -
  have d: "hdata t = pre @ hash it @ (le_bytes 4 off @ post)"
    unfolding assms(1) by (simp add: hindex_entry_def)
  have "hcompare_loop (pre @ hash it @ (le_bytes 4 off @ post)) key (length pre) 0
        = (case cmp_prefix (drop 0 (hash it)) (drop 0 key) of Some c \<Rightarrow> c | None \<Rightarrow> 0)"
    by (rule hcompare_loop_prefix[OF assms(2,3)]) simp
  then show ?thesis
    unfolding Hashed_compare_def d[symmetric] using assms(2,3)
    by (simp add: Buffer_compare_def split: option.splits)
qed

lemma hfind_loop_present:
  assumes cmp: "\<forall>m<n. Hashed_compare t key (20 + m * 36) = Buffer_compare (ks ! m) key"
    and rd: "readU32 (hdata t) (20 + j * 36 + 32) = Inr p"
    and n: "n < 2147483648" "length ks = n"
    and sorted: "sorted_wrt (<) ks"
    and j: "j < n" "ks ! j = key"
    and range: "0 \<le> start" "start \<le> int j" "int j \<le> endi" "endi < int n"
  shows "hfind_loop t key start endi = Some (Inr (int p))"
  using range
proof (induction "nat (endi - start + 1)" arbitrary: start endi rule: less_induct)
  case less
  have True: "start \<le> endi" using less.prems by simp
  define index where "index = (start + endi) div 2"
  have ix: "((start + endi) mod 4294967296) div 2 = index"
    unfolding index_def using mid_index(1)[OF less.prems(1) True] less.prems(4) n(1) by simp
  have lo: "start \<le> index" and hi: "index \<le> endi"
    unfolding index_def using True by simp_all
  have m: "nat index < n" using hi less.prems lo by simp
  have c: "Hashed_compare t key (20 + nat index * 36) = Buffer_compare (ks ! nat index) key"
    using cmp m by blast
  consider (eq) "nat index = j" | (lt) "nat index < j" | (gt) "j < nat index" by linarith
  then show ?case
  proof cases
    case eq
    then have "Buffer_compare (ks ! nat index) key = 0"
      using j(2) by (simp add: Buffer_compare_eq)
    then show ?thesis
      apply (subst hfind_loop.simps)
      using True ix c rd eq by (simp add: Let_def)
  next
    case lt
    then have "ks ! nat index < ks ! j"
      using sorted j(1) n(2) by (simp add: sorted_wrt_nth_less)
    then have c1: "Buffer_compare (ks ! nat index) key < 0"
      using j(2) by (simp add: Buffer_compare_less)
    have r1: "hfind_loop t key (index + 1) endi = Some (Inr (int p))"
      by (rule less.hyps) (use lo hi lt less.prems in simp_all)
    show ?thesis
      apply (subst hfind_loop.simps)
      using True ix c c1 r1 by (simp add: Let_def)
  next
    case gt
    then have "ks ! j < ks ! nat index"
      using sorted m n(2) by (simp add: sorted_wrt_nth_less)
    then have c1: "0 < Buffer_compare (ks ! nat index) key"
      using j(2) by (simp add: Buffer_compare_greater)
    have r2: "hfind_loop t key start (index - 1) = Some (Inr (int p))"
      by (rule less.hyps) (use lo hi gt less.prems in simp_all)
    show ?thesis
      apply (subst hfind_loop.simps)
      using True ix c c1 r2 by (simp add: Let_def)
  qed
qed

lemma hlayout_entry:
  assumes "m < length items" and "\<forall>it\<in>set items. length (hash it) = 32"
  shows "\<exists>pre post. hlayout nv rv items = pre @ hindex_entry (items ! m) (hash_off items m) @ post
          \<and> length pre = 20 + m * 36"
proof -
  have w: "\<forall>it\<in>set items. \<forall>off. length (hindex_entry it off) = 36"
    using assms(2) by (simp add: length_hindex_entry)
  from index_entries_nth[OF assms(1) w, of hpayload "20 + 36 * length items"]
  obtain pre post where
    e: "index_entries hindex_entry hpayload (20 + 36 * length items) items
          = pre @ hindex_entry (items ! m) (hash_off items m) @ post"
    and l: "length pre = m * 36"
    unfolding hash_off_def by blast
  have "hlayout nv rv items = (hheader (length items) nv rv @ pre)
           @ hindex_entry (items ! m) (hash_off items m) @ (post @ concat (map hpayload items))"
    unfolding hlayout_def e by simp
  moreover have "length (hheader (length items) nv rv @ pre) = 20 + m * 36"
    using l by simp
  ultimately show ?thesis by blast
qed

lemma hlayout_payload:
  assumes "m < length items" and "\<forall>it\<in>set items. length (hash it) = 32"
  shows "\<exists>pre post. hlayout nv rv items = pre @ hpayload (items ! m) @ post
          \<and> length pre = hash_off items m"
proof -
  let ?idx = "index_entries hindex_entry hpayload (20 + 36 * length items) items"
  have w: "\<forall>it\<in>set items. \<forall>off. length (hindex_entry it off) = 36"
    using assms(2) by (simp add: length_hindex_entry)
  have li: "length ?idx = 36 * length items"
    by (rule length_index_entries[OF w])
  let ?pre = "hheader (length items) nv rv @ ?idx @ concat (map hpayload (take m items))"
  have "hlayout nv rv items = ?pre @ hpayload (items ! m) @ concat (map hpayload (drop (Suc m) items))"
    unfolding hlayout_def using concat_map_nth[OF assms(1), of hpayload] by simp
  moreover have "length ?pre = hash_off items m"
    using li by (simp add: hash_off_def pay_off_def)
  ultimately show ?thesis by blast
qed

lemma length_hlayout_ge:
  assumes "\<forall>it\<in>set items. length (hash it) = 32"
  shows "20 + 36 * length items \<le> length (hlayout nv rv items)"
proof -
  have w: "\<forall>it\<in>set items. \<forall>off. length (hindex_entry it off) = 36"
    using assms by (simp add: length_hindex_entry)
  have "length (index_entries hindex_entry hpayload (20 + 36 * length items) items)
          = 36 * length items"
    by (rule length_index_entries[OF w])
  then show ?thesis by (simp add: hlayout_def)
qed

lemma Hashed_layout:
  assumes "length items < 4294967296" and "nv \<le> 9007199254740991" and "rv \<le> 9007199254740991"
  shows "Hashed (hlayout nv rv items) = Inr (hopened nv rv items)"
proof -
  let ?n = "length items"
  let ?rest = "index_entries hindex_entry hpayload (20 + 36 * ?n) items
                 @ concat (map hpayload items)"
  let ?d = "hlayout nv rv items"
  have d0: "?d = [] @ le_bytes 4 ?n @ (le_bytes 8 nv @ le_bytes 8 rv @ ?rest)"
    by (simp add: hlayout_def hheader_def)
  have d4: "?d = le_bytes 4 ?n @ le_bytes 8 nv @ (le_bytes 8 rv @ ?rest)"
    by (simp add: hlayout_def hheader_def)
  have d12: "?d = (le_bytes 4 ?n @ le_bytes 8 nv) @ le_bytes 8 rv @ ?rest"
    by (simp add: hlayout_def hheader_def)
  have "readUInt32LE ([] @ le_bytes 4 ?n @ (le_bytes 8 nv @ le_bytes 8 rv @ ?rest)) (length ([]::nat list))
        = Inr (?n mod 4294967296)"
    by (rule readUInt32LE_mid)
  then have r0: "readU32 ?d 0 = Inr ?n"
    unfolding d0[symmetric] readU32_def using assms(1) by simp
  have "readU64 (le_bytes 4 ?n @ le_bytes 8 nv @ (le_bytes 8 rv @ ?rest))
          (length (le_bytes 4 ?n)) = Inr nv"
    by (rule readU64_mid[OF assms(2)])
  then have r4: "readU64 ?d 4 = Inr nv"
    unfolding d4[symmetric] by simp
  have "readU64 ((le_bytes 4 ?n @ le_bytes 8 nv) @ le_bytes 8 rv @ ?rest)
          (length (le_bytes 4 ?n @ le_bytes 8 nv)) = Inr rv"
    by (rule readU64_mid[OF assms(3)])
  then have r12: "readU64 ?d 12 = Inr rv"
    unfolding d12[symmetric] by simp
  show ?thesis
    unfolding Hashed_def using r0 r4 r12 by (simp add: hopened_def)
qed

lemma hpayload_target:
  assumes "hdata t = pre @ hpayload it @ post"
  shows "Hashed_target t (length pre) = map (\<lambda>b. char_of (b mod 128)) (Buffer_from (target it))"
proof -
  have e: "at (hdata t) (length pre) = Some (length (target it))"
    unfolding assms using at_mid[of 0 "hpayload it" pre post] by (simp add: hpayload_def)
  have "take (length (target it)) (drop (length pre + 1) (hdata t)) = Buffer_from (target it)"
    unfolding assms by (simp add: hpayload_def Buffer_from_def)
  then show ?thesis
    unfolding Hashed_target_def using e by (simp add: toString_ascii_def)
qed

lemma hpayload_flags:
  assumes "hdata t = pre @ hpayload it @ post"
  shows "Hashed_flags t (length pre) = Some (flags_of it)"
proof -
  have e: "at (hdata t) (length pre) = Some (length (target it))"
    unfolding assms using at_mid[of 0 "hpayload it" pre post] by (simp add: hpayload_def)
  have k: "1 + length (target it) < length (hpayload it)"
    by (simp add: hpayload_def Buffer_from_def)
  have "hpayload it ! (1 + length (target it)) = flags_of it"
    by (simp add: hpayload_def Buffer_from_def nth_append)
  with at_mid[OF k, of pre post]
  have "at (hdata t) (length pre + 1 + length (target it)) = Some (flags_of it)"
    unfolding assms by (simp add: add.assoc)
  then show ?thesis unfolding Hashed_flags_def using e by simp
qed

lemma hpayload_index:
  assumes "hdata t = pre @ hpayload it @ post"
  shows "Hashed_index t (length pre) = Some (nat (indexOf (target it) (CHR ''.'') mod 256))"
proof -
  have e: "at (hdata t) (length pre) = Some (length (target it))"
    unfolding assms using at_mid[of 0 "hpayload it" pre post] by (simp add: hpayload_def)
  have k: "2 + length (target it) < length (hpayload it)"
    by (simp add: hpayload_def Buffer_from_def)
  have "hpayload it ! (2 + length (target it)) = nat (indexOf (target it) (CHR ''.'') mod 256)"
    by (simp add: hpayload_def Buffer_from_def nth_append)
  with at_mid[OF k, of pre post]
  have "at (hdata t) (length pre + 1 + length (target it) + 1)
          = Some (nat (indexOf (target it) (CHR ''.'') mod 256))"
    unfolding assms by (simp add: add.assoc add.commute)
  then show ?thesis unfolding Hashed_index_def using e by simp
qed

lemma hpayload_value:
  assumes "hdata t = pre @ hpayload it @ post" and "customValue it = Some v"
    and "v \<le> 9007199254740991"
  shows "Hashed_value t (length pre) = Inr v"
proof -
  have e: "at (hdata t) (length pre) = Some (length (target it))"
    unfolding assms(1) using at_mid[of 0 "hpayload it" pre post] by (simp add: hpayload_def)
  let ?p = "pre @ length (target it) # Buffer_from (target it) @ [flags_of it]
              @ [nat (indexOf (target it) (CHR ''.'') mod 256)]"
  have d: "hdata t = ?p @ le_bytes 8 v @ post"
    unfolding assms(1) using assms(2) by (simp add: hpayload_def)
  have "readU64 (?p @ le_bytes 8 v @ post) (length ?p) = Inr v"
    by (rule readU64_mid[OF assms(3)])
  then have "readU64 (hdata t) (length pre + 1 + length (target it) + 1 + 1) = Inr v"
    unfolding d[symmetric] by (simp add: Buffer_from_def)
  then show ?thesis unfolding Hashed_value_def using e by simp
qed

lemma hencoded_facts:
  assumes enc: "generateRawHash nv rv items0 = Inr d"
    and hl0: "\<forall>it\<in>set items0. length (hash it) = 32"
  shows "Hashed d = Inr (hopened nv rv (sort_by sortHash items0))"
    and "length (sort_by sortHash items0) < 2147483648"
    and "\<forall>m<length (sort_by sortHash items0). \<forall>key. length key = 32 \<longrightarrow>
            Hashed_compare (hopened nv rv (sort_by sortHash items0)) key (20 + m * 36)
          = Buffer_compare (hash (sort_by sortHash items0 ! m)) key"
    and "\<forall>m<length (sort_by sortHash items0).
            readU32 (hdata (hopened nv rv (sort_by sortHash items0))) (20 + m * 36 + 32)
          = Inr (hash_off (sort_by sortHash items0) m)"
    and "\<forall>m<length (sort_by sortHash items0). \<exists>pre post.
            hdata (hopened nv rv (sort_by sortHash items0))
              = pre @ hpayload (sort_by sortHash items0 ! m) @ post
            \<and> length pre = hash_off (sort_by sortHash items0) m"
    and "\<forall>it\<in>set items0. length (target it) \<le> 255
            \<and> (\<forall>v. customValue it = Some v \<longrightarrow> v \<le> 9007199254740991)"
    and "set (sort_by sortHash items0) = set items0"
proof -
  let ?items = "sort_by sortHash items0"
  let ?t = "hopened nv rv ?items"
  note inv = generateRawHash_inv[OF enc hl0]
  have e: "?items = sort_key hash items0"
    by (rule sort_by_sort_key) (rule sortHash_key)
  show se: "set ?items = set items0" unfolding e by simp
  have hl: "\<forall>it\<in>set ?items. length (hash it) = 32" using hl0 se by simp
  have d: "d = hlayout nv rv ?items" by (rule inv(1))
  have dl: "length (hlayout nv rv ?items) \<le> CAPACITY" using inv(5) d by simp
  have ge: "20 + 36 * length ?items \<le> length (hlayout nv rv ?items)"
    by (rule length_hlayout_ge[OF hl])
  show n: "length ?items < 2147483648" using dl ge by (simp add: CAPACITY_def)
  show "Hashed d = Inr ?t"
    unfolding d by (rule Hashed_layout) (use n inv(3,4) in simp_all)
  have dt: "hdata ?t = hlayout nv rv ?items" by (simp add: hopened_def)
  show "\<forall>m<length ?items. \<forall>key. length key = 32 \<longrightarrow>
            Hashed_compare ?t key (20 + m * 36) = Buffer_compare (hash (?items ! m)) key"
  proof (intro allI impI)
    fix m and key :: buffer
    assume m: "m < length ?items" and k: "length key = 32"
    from hlayout_entry[OF m hl, of nv rv] obtain pre post where
      e: "hdata ?t = pre @ hindex_entry (?items ! m) (hash_off ?items m) @ post"
      and l: "length pre = 20 + m * 36" unfolding dt by blast
    have "length (hash (?items ! m)) = 32" using hl m by simp
    from Hashed_compare_entry[OF e this k] l
    show "Hashed_compare ?t key (20 + m * 36) = Buffer_compare (hash (?items ! m)) key"
      by simp
  qed
  show "\<forall>m<length ?items. readU32 (hdata ?t) (20 + m * 36 + 32) = Inr (hash_off ?items m)"
  proof (intro allI impI)
    fix m assume m: "m < length ?items"
    from hlayout_entry[OF m hl, of nv rv] obtain pre post where
      e: "hdata ?t = pre @ hindex_entry (?items ! m) (hash_off ?items m) @ post"
      and l: "length pre = 20 + m * 36" unfolding dt by blast
    from hlayout_payload[OF m hl, of nv rv] obtain pre' post' where
      "hlayout nv rv ?items = pre' @ hpayload (?items ! m) @ post'"
      "length pre' = hash_off ?items m"
      by blast
    then have "hash_off ?items m \<le> length (hlayout nv rv ?items)"
      by (metis le_add1 length_append)
    with dl have o: "hash_off ?items m < 4294967296" by (simp add: CAPACITY_def)
    have h32: "length (hash (?items ! m)) = 32" using hl m by simp
    have d2: "hdata ?t = (pre @ hash (?items ! m)) @ le_bytes 4 (hash_off ?items m) @ post"
      unfolding e by (simp add: hindex_entry_def)
    have "readUInt32LE ((pre @ hash (?items ! m)) @ le_bytes 4 (hash_off ?items m) @ post)
            (length (pre @ hash (?items ! m))) = Inr (hash_off ?items m mod 4294967296)"
      by (rule readUInt32LE_mid)
    then show "readU32 (hdata ?t) (20 + m * 36 + 32) = Inr (hash_off ?items m)"
      unfolding d2[symmetric] readU32_def using l h32 o by simp
  qed
  show "\<forall>m<length ?items. \<exists>pre post. hdata ?t = pre @ hpayload (?items ! m) @ post
            \<and> length pre = hash_off ?items m"
    unfolding dt using hlayout_payload[OF _ hl] by blast
  show "\<forall>it\<in>set items0. length (target it) \<le> 255
            \<and> (\<forall>v. customValue it = Some v \<longrightarrow> v \<le> 9007199254740991)"
    by (rule inv(2))
qed

lemma hget_present:
  assumes enc: "generateRawHash nv rv items0 = Inr d"
    and hl0: "\<forall>it\<in>set items0. length (hash it) = 32"
    and dist: "distinct (map hash items0)"
    and r: "r \<in> set items0"
  shows "\<exists>pos. Hashed_find (hopened nv rv (sort_by sortHash items0)) (hash r) = Some (Inr (int pos))
           \<and> Hashed_index (hopened nv rv (sort_by sortHash items0)) pos
               = Some (nat (indexOf (target r) (CHR ''.'') mod 256))"
    and "Hashed_get (hopened nv rv (sort_by sortHash items0)) (hash r)
           = Some (Inr (Some
               \<lparr>h_name = take (nat (indexOf (target r) (CHR ''.'') mod 256))
                            (map (\<lambda>b. char_of (b mod 128)) (Buffer_from (target r))),
                h_target = map (\<lambda>b. char_of (b mod 128)) (Buffer_from (target r)),
                h_value = resolve nv rv r, h_root = root r\<rparr>))"
    and "Hashed_has (hopened nv rv (sort_by sortHash items0)) (hash r) = Some (Inr True)"
proof -
  let ?items = "sort_by sortHash items0"
  let ?t = "hopened nv rv ?items"
  note f = hencoded_facts[OF enc hl0]
  have e: "?items = sort_key hash items0"
    by (rule sort_by_sort_key) (rule sortHash_key)
  have st: "sorted_wrt (<) (map hash ?items)"
    unfolding e by (rule sort_key_strict[OF dist])
  from r f(7) have "r \<in> set ?items" by simp
  then obtain j where j: "j < length ?items" and rj: "?items ! j = r"
    by (auto simp: in_set_conv_nth)
  have k32: "length (hash r) = 32" using hl0 r by simp
  have cmp: "\<forall>m<length ?items. Hashed_compare ?t (hash r) (20 + m * 36)
               = Buffer_compare (map hash ?items ! m) (hash r)"
    using f(3) k32 by simp
  have rd: "readU32 (hdata ?t) (20 + j * 36 + 32) = Inr (hash_off ?items j)"
    using f(4) j by blast
  have kj: "map hash ?items ! j = hash r" using j rj by simp
  have "hfind_loop ?t (hash r) 0 (int (length ?items) - 1) = Some (Inr (int (hash_off ?items j)))"
    by (rule hfind_loop_present[OF cmp rd f(2) _ st j kj]) (use j in simp_all)
  then have fd: "Hashed_find ?t (hash r) = Some (Inr (int (hash_off ?items j)))"
    by (simp add: Hashed_find_def hopened_def)
  from f(5) j rj obtain pre post where
    p: "hdata ?t = pre @ hpayload r @ post" and lp: "length pre = hash_off ?items j" by auto
  have tg: "Hashed_target ?t (hash_off ?items j)
              = map (\<lambda>b. char_of (b mod 128)) (Buffer_from (target r))"
    using hpayload_target[OF p] lp by simp
  have fl: "Hashed_flags ?t (hash_off ?items j) = Some (flags_of r)"
    using hpayload_flags[OF p] lp by simp
  have ix: "Hashed_index ?t (hash_off ?items j) = Some (nat (indexOf (target r) (CHR ''.'') mod 256))"
    using hpayload_index[OF p] lp by simp
  have vl: "Hashed_value ?t (hash_off ?items j) = Inr v" if "customValue r = Some v" for v
  proof -
    from f(6) r that have "v \<le> 9007199254740991" by blast
    from hpayload_value[OF p that this] lp show ?thesis by simp
  qed
  have nvrv: "hrootValue ?t = rv" "hnameValue ?t = nv" by (simp_all add: hopened_def)
  from fd ix show "\<exists>pos. Hashed_find ?t (hash r) = Some (Inr (int pos))
           \<and> Hashed_index ?t pos = Some (nat (indexOf (target r) (CHR ''.'') mod 256))"
    by blast
  show "Hashed_has ?t (hash r) = Some (Inr True)"
    unfolding Hashed_has_def using fd k32 by simp
  show "Hashed_get ?t (hash r)
           = Some (Inr (Some
               \<lparr>h_name = take (nat (indexOf (target r) (CHR ''.'') mod 256))
                            (map (\<lambda>b. char_of (b mod 128)) (Buffer_from (target r))),
                h_target = map (\<lambda>b. char_of (b mod 128)) (Buffer_from (target r)),
                h_value = resolve nv rv r, h_root = root r\<rparr>))"
  proof (cases "customValue r")
    case None
    show ?thesis
      unfolding Hashed_get_def using fd k32 tg fl ix None nvrv
      by (simp add: Let_def flags_of_bits resolve_def zeroed_def)
  next
    case (Some v)
    show ?thesis
      unfolding Hashed_get_def using fd k32 tg fl ix Some vl[OF Some] nvrv
      by (simp add: Let_def flags_of_bits resolve_def zeroed_def)
  qed
qed

lemma hashed_sort: "sort_by sortHash [hcom, hcu] = [hcu, hcom]"
  by (simp add: sort_by_def sortHash_def Buffer_compare_def hcom_def hcu_def)

lemma hashed_encoded: "generateRawHash 1000 2000 [hcom, hcu] = Inr hashed_bytes"
  unfolding generateRawHash_def hashed_sort
  by (simp add: enc_simps writeBytes_def hcom_def hcu_def hashed_bytes_def)

lemma hashed_valid:
  "distinct (map hash [hcom, hcu])"
  "\<forall>it\<in>set [hcom, hcu]. length (hash it) = 32 \<and> (\<forall>c\<in>set (target it). (of_char c :: nat) < 128)"
  by (simp_all add: hcom_def hcu_def)

lemma custom_encoded: "generateRaw 1000 2000 [cu_custom] = Inr custom_bytes"
  by (simp add: enc_simps cu_custom_def custom_bytes_def)

lemma indexOf_first:
  assumes "c \<in> set s"
  shows "0 \<le> indexOf s c \<and> nat (indexOf s c) < length s \<and> s ! nat (indexOf s c) = c
       \<and> c \<notin> set (take (nat (indexOf s c)) s)"
  using assms
proof (induction s)
  case Nil
  then show ?case by simp
next
  case (Cons x xs)
  show ?case
  proof (cases "x = c")
    case True
    then show ?thesis by simp
  next
    case False
    with Cons.prems have "c \<in> set xs" by simp
    from Cons.IH[OF this] have ih: "0 \<le> indexOf xs c" "nat (indexOf xs c) < length xs"
      "xs ! nat (indexOf xs c) = c" "c \<notin> set (take (nat (indexOf xs c)) xs)" by blast+
    have e: "indexOf (x # xs) c = indexOf xs c + 1" using False ih(1) by (simp add: Let_def)
    have n: "nat (indexOf xs c + 1) = Suc (nat (indexOf xs c))" using ih(1) by simp
    show ?thesis unfolding e n using ih False by simp
  qed
qed

lemma www_sort: "sort_by sortHash [hgoogle, hcom] = [hcom, hgoogle]"
  by (simp add: sort_by_def sortHash_def Buffer_compare_def hcom_def hgoogle_def)

lemma www_encoded: "generateRawHash 1000 2000 [hgoogle, hcom] = Inr www_bytes"
  unfolding generateRawHash_def www_sort
  by (simp add: enc_simps writeBytes_def hcom_def hgoogle_def www_bytes_def)

lemma www_valid:
  "distinct (map hash [hgoogle, hcom])"
  "\<forall>it\<in>set [hgoogle, hcom]. length (hash it) = 32"
  by (simp_all add: hcom_def hgoogle_def)

lemma dot_sort: "sort_by sortHash [hdot] = [hdot]"
  by (simp add: sort_by_def)

lemma dot_encoded: "generateRawHash 1000 2000 [hdot] = Inr dot_bytes"
  unfolding generateRawHash_def dot_sort
  by (simp add: enc_simps writeBytes_def hdot_def dot_bytes_def)

subsection \<open>The encoders succeed on valid lists that fit the writer\<close>

lemma put_ok: "length bw + length bs \<le> CAPACITY \<Longrightarrow> put bs bw = Inr (bw @ bs)"
  by (simp add: put_def)

lemma write_index_ok:
  assumes "\<forall>it\<in>set its. length (name it) \<le> cap" and "cap \<le> 63"
    and "length bw + (cap + 5) * length its \<le> CAPACITY"
  shows "write_index cap its bw
       = Inr (bw @ concat (map (\<lambda>it. index_entry cap it 0) its),
              name_positions cap (length bw) (length its))"
  using assms
proof (induction its arbitrary: bw)
  case Nil
  then show ?case by (simp add: name_positions_def)
next
  case (Cons it its)
  have nm: "length (name it) \<le> cap" using Cons.prems(1) by simp
  have room: "length bw + (cap + 5) + (cap + 5) * length its \<le> CAPACITY"
    using Cons.prems(3) by simp
  let ?bw1 = "bw @ index_entry cap it 0"
  have l1: "length ?bw1 = length bw + (cap + 5)" using nm by (simp add: length_index_entry)
  have ih: "write_index cap its ?bw1
       = Inr (?bw1 @ concat (map (\<lambda>it. index_entry cap it 0) its),
              name_positions cap (length ?bw1) (length its))"
    by (rule Cons.IH) (use Cons.prems l1 room in simp_all)
  have s: "safe (int (length (name it)))" "safe 0"
    using nm Cons.prems(2) by (simp_all add: safe_def)
  have e1: "writeU8 (int (length (name it))) bw = Inr (bw @ [length (name it)])"
    using s nm Cons.prems(2) room by (simp add: writeU8_def put_def)
  have e2: "writeString (name it) (bw @ [length (name it)])
              = Inr (bw @ [length (name it)] @ Buffer_from (name it))"
    using nm room by (simp add: writeString_def put_def Buffer_from_def)
  have e3: "fill 0 (cap - length (name it)) (bw @ [length (name it)] @ Buffer_from (name it))
              = Inr (bw @ [length (name it)] @ Buffer_from (name it)
                       @ replicate (cap - length (name it)) 0)"
    using nm room by (simp add: fill_def put_def Buffer_from_def)
  have e4: "writeU32 0 (bw @ [length (name it)] @ Buffer_from (name it)
                       @ replicate (cap - length (name it)) 0) = Inr ?bw1"
    using nm room by (simp add: writeU32_def put_def Buffer_from_def index_entry_def safe_def)
  have lp: "length (bw @ [length (name it)] @ Buffer_from (name it)
                       @ replicate (cap - length (name it)) 0) = length bw + 1 + cap"
    using nm by (simp add: Buffer_from_def)
  show ?case
    using e1 e2 e3 e4 ih l1 lp
    by (simp add: name_positions_Suc Let_def del: append_assoc)
qed

lemma payload_append_ok:
  assumes "length (target it) \<le> 255"
    and "\<forall>v. customValue it = Some v \<longrightarrow> v \<le> 9007199254740991"
    and "length bw1 + length (payload it) \<le> CAPACITY"
  shows "seq (writeU8 (int (length (target it))) bw1) (\<lambda>bw.
     seq (writeString (target it) bw) (\<lambda>bw.
     seq (writeU8 (int (flags_of it)) bw) (\<lambda>bw.
     seq (case customValue it of None \<Rightarrow> Inr bw | Some v \<Rightarrow> writeU64 v bw) f)))
       = f (bw1 @ payload it)"
proof -
  have f: "flags_of it < 8" by (rule flags_of_less)
  show ?thesis
  proof (cases "customValue it")
    case None
    then show ?thesis using assms f
      by (simp add: writeU8_def writeString_def put_def payload_def Buffer_from_def safe_def)
  next
    case (Some v)
    then have "v \<le> 9007199254740991" using assms(2) by blast
    then show ?thesis using assms(1,3) f Some
      by (simp add: writeU8_def writeString_def writeU64_def put_def payload_def Buffer_from_def
          safe_def)
  qed
qed

lemma writeUInt32LE_entry_ok:
  assumes "length (name it) \<le> cap" and "p = length X + 1 + cap" and "v < 4294967296"
  shows "writeUInt32LE v p (X @ index_entry cap it 0 @ R) = Inr (X @ index_entry cap it v @ R)"
proof -
  define A where "A = X @ (length (name it) # Buffer_from (name it) @ replicate (cap - length (name it)) 0)"
  define D where "D = A @ le_bytes 4 0 @ R"
  have lA: "length A = p" using assms(1,2) by (simp add: A_def Buffer_from_def)
  have eq: "X @ index_entry cap it 0 @ R = D"
    by (simp add: index_entry_def A_def D_def)
  have lD: "p + 4 \<le> length D" using lA by (simp add: D_def)
  have "take p D @ le_bytes 4 v @ drop (p + 4) D = A @ le_bytes 4 v @ R"
    unfolding D_def by (rule patch_mid[OF lA]) simp
  moreover have "A @ le_bytes 4 v @ R = X @ index_entry cap it v @ R"
    by (simp add: index_entry_def A_def)
  ultimately show ?thesis unfolding eq using assms(3) lD by (simp add: writeUInt32LE_def)
qed

lemma write_payloads_ok:
  assumes "ps = name_positions cap (length X) (length its)"
    and "\<forall>it\<in>set its. length (name it) \<le> cap \<and> length (target it) \<le> 255
           \<and> (\<forall>v. customValue it = Some v \<longrightarrow> v \<le> 9007199254740991)"
    and "length X + (cap + 5) * length its + length B + length (concat (map payload its))
           \<le> CAPACITY"
  shows "write_payloads (zip its ps) (X @ concat (map (\<lambda>it. index_entry cap it 0) its) @ B)
       = Inr (X @ index_entries (index_entry cap) payload
                    (length X + (cap + 5) * length its + length B) its
                @ B @ concat (map payload its))"
  using assms
proof (induction its arbitrary: X B ps)
  case Nil
  then show ?case by simp
next
  case (Cons it its)
  let ?R = "concat (map (\<lambda>it. index_entry cap it 0) its) @ B"
  let ?bw = "X @ index_entry cap it 0 @ ?R"
  let ?off = "length X + (cap + 5) * length (it # its) + length B"
  have nm: "length (name it) \<le> cap" and tg: "length (target it) \<le> 255"
    and cv: "\<forall>v. customValue it = Some v \<longrightarrow> v \<le> 9007199254740991"
    using Cons.prems(2) by simp_all
  have lens: "length (concat (map (\<lambda>it. index_entry cap it 0) its)) = (cap + 5) * length its"
    using Cons.prems(2) by (induction its) (simp_all add: length_index_entry)
  have lbw: "length ?bw = ?off"
    using nm lens by (simp add: length_index_entry)
  obtain ps' where ps: "ps = (length X + 1 + cap) # ps'"
    and ps': "ps' = name_positions cap (length X + (cap + 5)) (length its)"
    using Cons.prems(1) by (simp add: name_positions_Suc)
  have room: "?off + length (payload it) + length (concat (map payload its)) \<le> CAPACITY"
    using Cons.prems(3) by simp
  then have o32: "?off < 4294967296" by (simp add: CAPACITY_def)
  have s1: "writeUInt32LE (length ?bw) (length X + 1 + cap) ?bw
              = Inr (X @ index_entry cap it ?off @ ?R)"
    unfolding lbw by (rule writeUInt32LE_entry_ok[OF nm refl o32])
  let ?bw1 = "X @ index_entry cap it ?off @ ?R"
  have lbw1: "length ?bw1 = ?off" using nm lens by (simp add: length_index_entry)
  have r1: "length ?bw1 + length (payload it) \<le> CAPACITY" using room lbw1 by simp
  let ?X' = "X @ index_entry cap it ?off"
  let ?B' = "B @ payload it"
  have lX': "length ?X' = length X + (cap + 5)" using nm by (simp add: length_index_entry)
  have ih: "write_payloads (zip its ps') (?X' @ concat (map (\<lambda>it. index_entry cap it 0) its) @ ?B')
       = Inr (?X' @ index_entries (index_entry cap) payload
                    (length ?X' + (cap + 5) * length its + length ?B') its
                @ ?B' @ concat (map payload its))"
    apply (rule Cons.IH)
    using ps' lX' apply simp
    using Cons.prems(2) apply simp
    using room lX' apply simp
    done
  have offeq: "length ?X' + (cap + 5) * length its + length ?B' = ?off + length (payload it)"
    using lX' by simp
  have bw2: "?bw1 @ payload it = ?X' @ concat (map (\<lambda>it. index_entry cap it 0) its) @ ?B'"
    by simp
  have "write_payloads (zip (it # its) ps) (X @ concat (map (\<lambda>it. index_entry cap it 0) (it # its)) @ B)
        = write_payloads (zip its ps') (?bw1 @ payload it)"
    unfolding ps using s1 payload_append_ok[OF tg cv r1, of "write_payloads (zip its ps')"]
    by simp
  also have "\<dots> = Inr (?X' @ index_entries (index_entry cap) payload
                    (?off + length (payload it)) its @ ?B' @ concat (map payload its))"
    unfolding bw2 using ih unfolding offeq .
  finally show ?case by simp
qed

lemma generateRaw_ok:
  assumes "\<forall>it\<in>set items. length (name it) \<le> 63 \<and> length (target it) \<le> 255
           \<and> (\<forall>v. customValue it = Some v \<longrightarrow> v \<le> 9007199254740991)"
    and "nv \<le> 9007199254740991" and "rv \<le> 9007199254740991"
    and "length (layout nv rv items) \<le> CAPACITY"
  shows "generateRaw nv rv items = Inr (layout nv rv items)"
proof -
  let ?cap = "name_cap items"
  let ?lt = "largest 0 (map (\<lambda>item. length (target item)) items)"
  let ?n = "length items"
  have largest_le: "largest m ls \<le> b" if "m \<le> b" "\<forall>l\<in>set ls. l \<le> b" for m ls and b :: nat
    using that by (induction ls arbitrary: m) simp_all
  have c63: "?cap \<le> 63" unfolding name_cap_def
    by (rule largest_le) (use assms(1) in auto)
  have t255: "?lt \<le> 255"
    by (rule largest_le) (use assms(1) in auto)
  have nm: "\<forall>it\<in>set items. length (name it) \<le> ?cap"
    unfolding name_cap_def by (auto intro!: largest_upper)
  have w: "\<forall>it\<in>set items. \<forall>off. length (index_entry ?cap it off) = ?cap + 5"
    using nm by (simp add: length_index_entry)
  have li: "length (index_entries (index_entry ?cap) payload (21 + (?cap + 5) * ?n) items)
              = (?cap + 5) * ?n"
    by (rule length_index_entries[OF w])
  have total: "21 + (?cap + 5) * ?n + length (concat (map payload items)) \<le> CAPACITY"
    using assms(4) li by (simp add: layout_def)
  let ?h = "header ?n ?cap nv rv"
  have hd: "seq (writeU32 ?n []) (\<lambda>bw.
           seq (writeU8 (int ?cap) bw) (\<lambda>bw.
           seq (writeU64 nv bw) (\<lambda>bw.
           seq (writeU64 rv bw) f))) = f ?h" for f
  proof -
    have a: "?n \<le> (?cap + 5) * ?n" by simp
    have b: "(?cap + 5) * ?n \<le> 20971520" using total unfolding CAPACITY_def by linarith
    from a b have "?n \<le> 9007199254740991" by linarith
    then show ?thesis
      using c63 assms(2,3) total
      by (simp add: writeU32_def writeU8_def writeU64_def put_def safe_def header_def CAPACITY_def)
  qed
  have wi: "write_index ?cap items ?h
       = Inr (?h @ concat (map (\<lambda>it. index_entry ?cap it 0) items),
              name_positions ?cap (length ?h) ?n)"
    by (rule write_index_ok[OF nm c63]) (use total in simp)
  have all: "\<forall>it\<in>set items. length (name it) \<le> ?cap \<and> length (target it) \<le> 255
           \<and> (\<forall>v. customValue it = Some v \<longrightarrow> v \<le> 9007199254740991)"
    using nm assms(1) by blast
  have wp: "write_payloads (zip items (name_positions ?cap (length ?h) ?n))
              (?h @ concat (map (\<lambda>it. index_entry ?cap it 0) items) @ [])
       = Inr (?h @ index_entries (index_entry ?cap) payload
                    (length ?h + (?cap + 5) * ?n + length ([]::nat list)) items
                @ [] @ concat (map payload items))"
    by (rule write_payloads_ok[OF refl all]) (use total in simp)
  have "generateRaw nv rv items =
           seq (writeU32 ?n []) (\<lambda>bw.
           seq (writeU8 (int ?cap) bw) (\<lambda>bw.
           seq (writeU64 nv bw) (\<lambda>bw.
           seq (writeU64 rv bw) (\<lambda>bw.
           seq (write_index ?cap items bw) (\<lambda>(bw, poss).
           write_payloads (zip items poss) bw)))))"
    unfolding generateRaw_def Let_def name_cap_def[symmetric] using c63 t255 by simp
  also have "\<dots> = seq (write_index ?cap items ?h) (\<lambda>(bw, poss).
           write_payloads (zip items poss) bw)"
    by (rule hd)
  also have "\<dots> = write_payloads (zip items (name_positions ?cap (length ?h) ?n))
              (?h @ concat (map (\<lambda>it. index_entry ?cap it 0) items) @ [])"
    unfolding wi by simp
  also have "\<dots> = Inr (layout nv rv items)"
    unfolding wp by (simp add: layout_def)
  finally show ?thesis .
qed

lemma write_hindex_ok:
  assumes "\<forall>it\<in>set its. length (hash it) = 32"
    and "length bw + 36 * length its \<le> CAPACITY"
  shows "write_hindex its bw
       = Inr (bw @ concat (map (\<lambda>it. hindex_entry it 0) its),
              hash_positions (length bw) (length its))"
  using assms
proof (induction its arbitrary: bw)
  case Nil
  then show ?case by (simp add: hash_positions_def)
next
  case (Cons it its)
  have hl: "length (hash it) = 32" using Cons.prems(1) by simp
  have room: "length bw + 36 + 36 * length its \<le> CAPACITY"
    using Cons.prems(2) by simp
  let ?bw1 = "bw @ hindex_entry it 0"
  have l1: "length ?bw1 = length bw + 36" using hl by (simp add: length_hindex_entry)
  have ih: "write_hindex its ?bw1
       = Inr (?bw1 @ concat (map (\<lambda>it. hindex_entry it 0) its),
              hash_positions (length ?bw1) (length its))"
    by (rule Cons.IH) (use Cons.prems l1 room in simp_all)
  have e1: "writeBytes (hash it) bw = Inr (bw @ hash it)"
    using hl room by (simp add: writeBytes_def put_def)
  have e2: "writeU32 0 (bw @ hash it) = Inr ?bw1"
    using hl room by (simp add: writeU32_def put_def hindex_entry_def safe_def)
  show ?case
    using e1 e2 ih l1 hl
    by (simp add: hash_positions_Suc Let_def del: append_assoc)
qed

lemma hpayload_append_ok:
  assumes "length (target it) \<le> 255"
    and "\<forall>v. customValue it = Some v \<longrightarrow> v \<le> 9007199254740991"
    and "length bw1 + length (hpayload it) \<le> CAPACITY"
  shows "(if \<not> length (target it) \<le> 255 then Inl AssertionError
     else
       seq (writeU8 (int (length (target it))) bw1) (\<lambda>bw.
       seq (writeString (target it) bw) (\<lambda>bw.
       seq (writeU8 (int (flags_of it)) bw) (\<lambda>bw.
       seq (writeU8 (indexOf (target it) (CHR ''.'')) bw) (\<lambda>bw.
       seq (case customValue it of None \<Rightarrow> Inr bw | Some v \<Rightarrow> writeU64 v bw) f)))))
       = f (bw1 @ hpayload it)"
proof -
  have f: "flags_of it < 8" by (rule flags_of_less)
  have "- 1 \<le> indexOf (target it) (CHR ''.'') \<and> indexOf (target it) (CHR ''.'') < int (length (target it))"
    by (rule indexOf_range)
  then have s: "safe (indexOf (target it) (CHR ''.''))"
    using assms(1) unfolding safe_def by linarith
  show ?thesis
  proof (cases "customValue it")
    case None
    then show ?thesis using assms f s
      by (simp add: writeU8_def writeString_def put_def hpayload_def Buffer_from_def safe_def)
  next
    case (Some v)
    then have "v \<le> 9007199254740991" using assms(2) by blast
    then show ?thesis using assms(1,3) f s Some
      by (simp add: writeU8_def writeString_def writeU64_def put_def hpayload_def Buffer_from_def
          safe_def)
  qed
qed

lemma writeUInt32LE_hentry_ok:
  assumes "length (hash it) = 32" and "p = length X + 32" and "v < 4294967296"
  shows "writeUInt32LE v p (X @ hindex_entry it 0 @ R) = Inr (X @ hindex_entry it v @ R)"
proof -
  define A where "A = X @ hash it"
  define D where "D = A @ le_bytes 4 0 @ R"
  have lA: "length A = p" using assms(1,2) by (simp add: A_def)
  have eq: "X @ hindex_entry it 0 @ R = D"
    by (simp add: hindex_entry_def A_def D_def)
  have lD: "p + 4 \<le> length D" using lA by (simp add: D_def)
  have "take p D @ le_bytes 4 v @ drop (p + 4) D = A @ le_bytes 4 v @ R"
    unfolding D_def by (rule patch_mid[OF lA]) simp
  moreover have "A @ le_bytes 4 v @ R = X @ hindex_entry it v @ R"
    by (simp add: hindex_entry_def A_def)
  ultimately show ?thesis unfolding eq using assms(3) lD by (simp add: writeUInt32LE_def)
qed

lemma write_hpayloads_ok:
  assumes "ps = hash_positions (length X) (length its)"
    and "\<forall>it\<in>set its. length (hash it) = 32 \<and> length (target it) \<le> 255
           \<and> (\<forall>v. customValue it = Some v \<longrightarrow> v \<le> 9007199254740991)"
    and "length X + 36 * length its + length B + length (concat (map hpayload its)) \<le> CAPACITY"
  shows "write_hpayloads (zip its ps) (X @ concat (map (\<lambda>it. hindex_entry it 0) its) @ B)
       = Inr (X @ index_entries hindex_entry hpayload (length X + 36 * length its + length B) its
                @ B @ concat (map hpayload its))"
  using assms
proof (induction its arbitrary: X B ps)
  case Nil
  then show ?case by simp
next
  case (Cons it its)
  let ?R = "concat (map (\<lambda>it. hindex_entry it 0) its) @ B"
  let ?bw = "X @ hindex_entry it 0 @ ?R"
  let ?off = "length X + 36 * length (it # its) + length B"
  have hl: "length (hash it) = 32" and tg: "length (target it) \<le> 255"
    and cv: "\<forall>v. customValue it = Some v \<longrightarrow> v \<le> 9007199254740991"
    using Cons.prems(2) by simp_all
  have lens: "length (concat (map (\<lambda>it. hindex_entry it 0) its)) = 36 * length its"
    using Cons.prems(2) by (induction its) (simp_all add: length_hindex_entry)
  have lbw: "length ?bw = ?off"
    using hl lens by (simp add: length_hindex_entry)
  obtain ps' where ps: "ps = (length X + 32) # ps'"
    and ps': "ps' = hash_positions (length X + 36) (length its)"
    using Cons.prems(1) by (simp add: hash_positions_Suc)
  have room: "?off + length (hpayload it) + length (concat (map hpayload its)) \<le> CAPACITY"
    using Cons.prems(3) by simp
  then have o32: "?off < 4294967296" by (simp add: CAPACITY_def)
  have s1: "writeUInt32LE (length ?bw) (length X + 32) ?bw
              = Inr (X @ hindex_entry it ?off @ ?R)"
    unfolding lbw by (rule writeUInt32LE_hentry_ok[OF hl refl o32])
  let ?bw1 = "X @ hindex_entry it ?off @ ?R"
  have lbw1: "length ?bw1 = ?off" using hl lens by (simp add: length_hindex_entry)
  have r1: "length ?bw1 + length (hpayload it) \<le> CAPACITY" using room lbw1 by simp
  let ?X' = "X @ hindex_entry it ?off"
  let ?B' = "B @ hpayload it"
  have lX': "length ?X' = length X + 36" using hl by (simp add: length_hindex_entry)
  have ih: "write_hpayloads (zip its ps') (?X' @ concat (map (\<lambda>it. hindex_entry it 0) its) @ ?B')
       = Inr (?X' @ index_entries hindex_entry hpayload
                    (length ?X' + 36 * length its + length ?B') its
                @ ?B' @ concat (map hpayload its))"
    apply (rule Cons.IH)
    using ps' lX' apply simp
    using Cons.prems(2) apply simp
    using room lX' apply simp
    done
  have offeq: "length ?X' + 36 * length its + length ?B' = ?off + length (hpayload it)"
    using lX' by simp
  have bw2: "?bw1 @ hpayload it = ?X' @ concat (map (\<lambda>it. hindex_entry it 0) its) @ ?B'"
    by simp
  have "write_hpayloads (zip (it # its) ps) (X @ concat (map (\<lambda>it. hindex_entry it 0) (it # its)) @ B)
        = write_hpayloads ((it, length X + 32) # zip its ps') ?bw"
    unfolding ps by simp
  also have "\<dots> = write_hpayloads (zip its ps') (?bw1 @ hpayload it)"
    apply (subst write_hpayloads.simps)
    apply (subst s1)
    apply (subst seq_Inr)
    apply (rule hpayload_append_ok[OF tg cv r1])
    done
  also have "\<dots> = Inr (?X' @ index_entries hindex_entry hpayload
                    (?off + length (hpayload it)) its @ ?B' @ concat (map hpayload its))"
    unfolding bw2 using ih unfolding offeq .
  finally show ?case by simp
qed

lemma generateRawHash_ok:
  assumes "\<forall>it\<in>set items0. length (hash it) = 32 \<and> length (target it) \<le> 255
           \<and> (\<forall>v. customValue it = Some v \<longrightarrow> v \<le> 9007199254740991)"
    and "nv \<le> 9007199254740991" and "rv \<le> 9007199254740991"
    and "length (hlayout nv rv (sort_by sortHash items0)) \<le> CAPACITY"
  shows "generateRawHash nv rv items0 = Inr (hlayout nv rv (sort_by sortHash items0))"
proof -
  let ?items = "sort_by sortHash items0"
  let ?n = "length ?items"
  have e: "?items = sort_key hash items0"
    by (rule sort_by_sort_key) (rule sortHash_key)
  have se: "set ?items = set items0" unfolding e by simp
  have all: "\<forall>it\<in>set ?items. length (hash it) = 32 \<and> length (target it) \<le> 255
           \<and> (\<forall>v. customValue it = Some v \<longrightarrow> v \<le> 9007199254740991)"
    using assms(1) se by simp
  have hl: "\<forall>it\<in>set ?items. length (hash it) = 32" using all by blast
  have w: "\<forall>it\<in>set ?items. \<forall>off. length (hindex_entry it off) = 36"
    using hl by (simp add: length_hindex_entry)
  have li: "length (index_entries hindex_entry hpayload (20 + 36 * ?n) ?items) = 36 * ?n"
    by (rule length_index_entries[OF w])
  have total: "20 + 36 * ?n + length (concat (map hpayload ?items)) \<le> CAPACITY"
    using assms(4) li by (simp add: hlayout_def)
  let ?h = "hheader ?n nv rv"
  have hd: "seq (writeU32 ?n []) (\<lambda>bw.
           seq (writeU64 nv bw) (\<lambda>bw.
           seq (writeU64 rv bw) f)) = f ?h" for f
  proof -
    have "?n \<le> 9007199254740991" using total unfolding CAPACITY_def by linarith
    then show ?thesis
      using assms(2,3) total
      by (simp add: writeU32_def writeU64_def put_def safe_def hheader_def CAPACITY_def)
  qed
  have wi: "write_hindex ?items ?h
       = Inr (?h @ concat (map (\<lambda>it. hindex_entry it 0) ?items),
              hash_positions (length ?h) ?n)"
    by (rule write_hindex_ok[OF hl]) (use total in simp)
  have wp: "write_hpayloads (zip ?items (hash_positions (length ?h) ?n))
              (?h @ concat (map (\<lambda>it. hindex_entry it 0) ?items) @ [])
       = Inr (?h @ index_entries hindex_entry hpayload
                    (length ?h + 36 * ?n + length ([]::nat list)) ?items
                @ [] @ concat (map hpayload ?items))"
    by (rule write_hpayloads_ok[OF refl all]) (use total in simp)
  have "generateRawHash nv rv items0 =
           seq (writeU32 ?n []) (\<lambda>bw.
           seq (writeU64 nv bw) (\<lambda>bw.
           seq (writeU64 rv bw) (\<lambda>bw.
           seq (write_hindex ?items bw) (\<lambda>(bw, poss).
           write_hpayloads (zip ?items poss) bw))))"
    unfolding generateRawHash_def Let_def by simp
  also have "\<dots> = seq (write_hindex ?items ?h) (\<lambda>(bw, poss).
           write_hpayloads (zip ?items poss) bw)"
    by (rule hd)
  also have "\<dots> = write_hpayloads (zip ?items (hash_positions (length ?h) ?n))
              (?h @ concat (map (\<lambda>it. hindex_entry it 0) ?items) @ [])"
    unfolding wi by simp
  also have "\<dots> = Inr (hlayout nv rv ?items)"
    unfolding wp by (simp add: hlayout_def)
  finally show ?thesis .
qed

section \<open>The claims\<close>

text \<open>
  C1. Every record of a finalized list survives the name table: after \<open>generateRaw\<close> and
  the constructor, \<open>get\<close> on the record's name returns an entry (not \<open>null\<close>) with the
  record's target, the record's root flag, and the value section 4.1 computes from the
  record and the defaults stored in the table. The finalized list is as \<open>getList\<close> leaves
  it: in strictly ascending byte order of the names (so the names are unique), each name
  non-empty, each target ASCII. That the encoder returned a buffer covers the length
  limits (names up to 63 bytes, targets up to 255), the safe-integer values and the
  writer's capacity; by \<open>generateRaw_ok\<close> it does so for every list within them.
\<close>

theorem roundtrip_by_name:
  assumes "generateRaw nv rv items = Inr d"
    and "sorted_wrt (<) (keys items)"
    and "\<forall>it\<in>set items. name it \<noteq> [] \<and> (\<forall>c\<in>set (target it). (of_char c :: nat) < 128)"
    and "r \<in> set items"
  shows "\<exists>t. Reserved d = Inr t \<and> nameValue t = nv \<and> rootValue t = rv
           \<and> Reserved_get False t (name r)
               = Some (Inr (Some \<lparr>e_target = target r,
                                  e_value = resolve (nameValue t) (rootValue t) r,
                                  e_root = root r\<rparr>))"
proof -
  from assms(4) obtain j where j: "j < length items" and r: "items ! j = r"
    by (auto simp: in_set_conv_nth)
  have ne: "name (items ! j) \<noteq> []" using assms(3,4) r by simp
  have "\<forall>c\<in>set (target r). (of_char c :: nat) < 128" using assms(3,4) by simp
  then have a: "map (\<lambda>b. char_of (b mod 128)) (Buffer_from (target r)) = target r"
    by (rule ascii_roundtrip)
  have "Reserved d = Inr (opened nv rv items)" by (rule encoded_facts(1)[OF assms(1)])
  moreover have "nameValue (opened nv rv items) = nv" "rootValue (opened nv rv items) = rv"
    by (simp_all add: opened_def)
  moreover have "Reserved_get False (opened nv rv items) (name r)
       = Some (Inr (Some \<lparr>e_target = target r, e_value = resolve nv rv r, e_root = root r\<rparr>))"
    using get_present(1)[OF assms(1,2) j ne, of False] r a by simp
  ultimately show ?thesis by simp
qed

theorem roundtrip_by_name_witness:
  "generateRaw 1000 2000 [bitcoin, com, cu] = Inr scenario_bytes
   \<and> sorted_wrt (<) (keys [bitcoin, com, cu])
   \<and> (\<exists>t. Reserved scenario_bytes = Inr t \<and> nameValue t = 1000 \<and> rootValue t = 2000
          \<and> Reserved_get False t ''cu''
              = Some (Inr (Some \<lparr>e_target = ''cu.'', e_value = 0, e_root = False\<rparr>)))"
proof -
  have m: "cu \<in> set [bitcoin, com, cu]" by simp
  have z: "resolve 1000 2000 cu = 0"
    by (simp add: resolve_def zeroed_def embargoes_def cu_def)
  from roundtrip_by_name[OF scenario_encoded scenario_sorted scenario_valid m]
  obtain t where "Reserved scenario_bytes = Inr t" "nameValue t = 1000" "rootValue t = 2000"
    "Reserved_get False t (name cu) = Some (Inr (Some \<lparr>e_target = target cu,
         e_value = resolve (nameValue t) (rootValue t) cu, e_root = root cu\<rparr>))"
    by blast
  then have "Reserved scenario_bytes = Inr t \<and> nameValue t = 1000 \<and> rootValue t = 2000
          \<and> Reserved_get False t ''cu''
              = Some (Inr (Some \<lparr>e_target = ''cu.'', e_value = 0, e_root = False\<rparr>))"
    using z by (simp add: cu_def)
  then show ?thesis using scenario_encoded scenario_sorted by blast
qed

text \<open>
  C2. The value of a lookup follows the reader's order of overrides, in both tables: the
  root or the name default, then 0 for a zeroed record, then the custom value, applied
  last. So a record with a custom value gets it, a zeroed record without one gets 0, any
  other record its default; a record that is zeroed and has a custom value gets the custom
  value.
\<close>

theorem value_override_order:
  assumes "generateRaw nv rv items = Inr d"
    and "sorted_wrt (<) (keys items)"
    and "r \<in> set items" and "name r \<noteq> []"
    and "generateRawHash nv rv hitems = Inr hb"
    and "distinct (map hash hitems)"
    and "\<forall>it\<in>set hitems. length (hash it) = 32"
    and "hr \<in> set hitems"
  shows "(\<exists>t e. Reserved d = Inr t \<and> Reserved_get False t (name r) = Some (Inr (Some e))
            \<and> e_value e = (case customValue r of
                              Some c \<Rightarrow> c
                            | None \<Rightarrow> if zeroed r then 0
                                      else if root r then rootValue t else nameValue t)
            \<and> (\<forall>c. zeroed r \<and> customValue r = Some c \<longrightarrow> e_value e = c))
       \<and> (\<exists>t e. Hashed hb = Inr t \<and> Hashed_get t (hash hr) = Some (Inr (Some e))
            \<and> h_value e = (case customValue hr of
                              Some c \<Rightarrow> c
                            | None \<Rightarrow> if zeroed hr then 0
                                      else if root hr then hrootValue t else hnameValue t)
            \<and> (\<forall>c. zeroed hr \<and> customValue hr = Some c \<longrightarrow> h_value e = c))"
proof -
  let ?t = "opened nv rv items"
  let ?h = "hopened nv rv (sort_by sortHash hitems)"
  from assms(3) obtain j where j: "j < length items" and rj: "items ! j = r"
    by (auto simp: in_set_conv_nth)
  have ne: "name (items ! j) \<noteq> []" using assms(4) rj by simp
  have o: "Reserved d = Inr ?t" by (rule encoded_facts(1)[OF assms(1)])
  have v: "resolve nv rv x = (case customValue x of
                              Some c \<Rightarrow> c
                            | None \<Rightarrow> if zeroed x then 0 else if root x then rv else nv)" for x
    by (simp add: resolve_def split: option.splits)
  let ?e = "\<lparr>e_target = map (\<lambda>b. char_of (b mod 128)) (Buffer_from (target r)),
             e_value = resolve nv rv r, e_root = root r\<rparr>"
  have g: "Reserved_get False ?t (name r) = Some (Inr (Some ?e))"
    using get_present(1)[OF assms(1,2) j ne, of False] rj by simp
  have A: "Reserved d = Inr ?t \<and> Reserved_get False ?t (name r) = Some (Inr (Some ?e))
            \<and> e_value ?e = (case customValue r of
                              Some c \<Rightarrow> c
                            | None \<Rightarrow> if zeroed r then 0
                                      else if root r then rootValue ?t else nameValue ?t)
            \<and> (\<forall>c. zeroed r \<and> customValue r = Some c \<longrightarrow> e_value ?e = c)"
    using o g by (simp add: v opened_def split: option.splits)
  let ?he = "\<lparr>h_name = take (nat (indexOf (target hr) (CHR ''.'') mod 256))
                            (map (\<lambda>b. char_of (b mod 128)) (Buffer_from (target hr))),
                h_target = map (\<lambda>b. char_of (b mod 128)) (Buffer_from (target hr)),
                h_value = resolve nv rv hr, h_root = root hr\<rparr>"
  have ho: "Hashed hb = Inr ?h" by (rule hencoded_facts(1)[OF assms(5,7)])
  have hg: "Hashed_get ?h (hash hr) = Some (Inr (Some ?he))"
    by (rule hget_present(2)[OF assms(5,7,6,8)])
  have B: "Hashed hb = Inr ?h \<and> Hashed_get ?h (hash hr) = Some (Inr (Some ?he))
            \<and> h_value ?he = (case customValue hr of
                              Some c \<Rightarrow> c
                            | None \<Rightarrow> if zeroed hr then 0
                                      else if root hr then hrootValue ?h else hnameValue ?h)
            \<and> (\<forall>c. zeroed hr \<and> customValue hr = Some c \<longrightarrow> h_value ?he = c)"
    using ho hg by (simp add: v hopened_def split: option.splits)
  from A B show ?thesis by blast
qed

theorem value_override_order_witness:
  "generateRaw 1000 2000 [cu_custom] = Inr custom_bytes
   \<and> generateRawHash 1000 2000 [hcom, hcu] = Inr hashed_bytes
   \<and> zeroed cu_custom \<and> zeroed hcu
   \<and> (\<exists>t e. Reserved custom_bytes = Inr t \<and> Reserved_get False t ''cu'' = Some (Inr (Some e))
            \<and> e_value e = 5000)
   \<and> (\<exists>t e. Hashed hashed_bytes = Inr t \<and> Hashed_get t (hash hcu) = Some (Inr (Some e))
            \<and> h_value e = 5000)"
proof -
  have s: "sorted_wrt (<) (keys [cu_custom])" by (simp add: keys_def)
  have m: "cu_custom \<in> set [cu_custom]" by simp
  have n: "name cu_custom \<noteq> []" by (simp add: cu_custom_def)
  have hl: "\<forall>it\<in>set [hcom, hcu]. length (hash it) = 32" using hashed_valid(2) by blast
  have hm: "hcu \<in> set [hcom, hcu]" by simp
  have z: "zeroed cu_custom" "zeroed hcu"
    by (simp_all add: zeroed_def embargoes_def cu_custom_def hcu_def)
  have c: "customValue cu_custom = Some 5000" "customValue hcu = Some 5000"
    by (simp_all add: cu_custom_def hcu_def)
  from value_override_order[OF custom_encoded s m n hashed_encoded hashed_valid(1) hl hm]
  obtain t e t' e' where
    "Reserved custom_bytes = Inr t" "Reserved_get False t (name cu_custom) = Some (Inr (Some e))"
    "\<forall>c. zeroed cu_custom \<and> customValue cu_custom = Some c \<longrightarrow> e_value e = c"
    "Hashed hashed_bytes = Inr t'" "Hashed_get t' (hash hcu) = Some (Inr (Some e'))"
    "\<forall>c. zeroed hcu \<and> customValue hcu = Some c \<longrightarrow> h_value e' = c"
    by blast
  then have "(\<exists>t e. Reserved custom_bytes = Inr t \<and> Reserved_get False t ''cu'' = Some (Inr (Some e))
            \<and> e_value e = 5000)"
    and "(\<exists>t e. Hashed hashed_bytes = Inr t \<and> Hashed_get t (hash hcu) = Some (Inr (Some e))
            \<and> h_value e = 5000)"
    using z c by (auto simp: cu_custom_def)
  then show ?thesis using custom_encoded hashed_encoded z by blast
qed

text \<open>
  C3. \<open>sortAlpha\<close> leaves the items in strictly ascending byte-wise order of their
  names, a name coming before every longer name it is a prefix of. In the table made of the
  sorted items, \<open>_compare\<close> on index entry \<open>m\<close> and a query returns what the sort's
  comparator returns on the stored name and the query (so a query that is a proper prefix
  of the stored name is the smaller one), and \<open>get\<close> finds every record. The sorted list,
  and so the table, is the same for every order in which the records are given. The names
  are unique and non-empty, the targets ASCII.
\<close>

theorem sorted_index_binary_search:
  assumes "distinct (map name items)"
    and "\<forall>it\<in>set items. name it \<noteq> [] \<and> (\<forall>c\<in>set (target it). (of_char c :: nat) < 128)"
    and "generateRaw nv rv (sort_by sortAlpha items) = Inr d"
  shows "sorted_wrt (\<lambda>a b. util_compare (name a) (name b) = - 1) (sort_by sortAlpha items)
     \<and> (\<forall>a c cs. util_compare a (a @ c # cs) = - 1 \<and> util_compare (a @ c # cs) a = 1)
     \<and> (\<exists>t. Reserved d = Inr t
          \<and> (\<forall>m<length items. \<forall>q.
                Reserved_compare False t (Buffer_from q) (offset t + m * indexSize t + 1)
                  = Inr (util_compare (name (sort_by sortAlpha items ! m)) q))
          \<and> (\<forall>r\<in>set items.
                Reserved_get False t (name r)
                  = Some (Inr (Some \<lparr>e_target = target r, e_value = resolve nv rv r,
                                     e_root = root r\<rparr>))))
     \<and> (\<forall>items'. distinct (map name items') \<and> set items' = set items \<longrightarrow>
            sort_by sortAlpha items' = sort_by sortAlpha items)"
proof -
  let ?s = "sort_by sortAlpha items"
  let ?t = "opened nv rv ?s"
  have e: "sort_by sortAlpha xs = sort_key (\<lambda>it. Buffer_from (name it)) xs" for xs
    by (rule sort_by_sort_key) (rule sortAlpha_key)
  have st: "sorted_wrt (<) (keys ?s)" and se: "set ?s = set items"
    by (rule sortAlpha_sorted[OF assms(1)])+
  have len: "length ?s = length items" unfolding e by simp
  have "sorted_wrt (\<lambda>a b. Buffer_from (name a) < Buffer_from (name b)) ?s"
    using st by (simp add: keys_def sorted_wrt_map)
  then have A: "sorted_wrt (\<lambda>a b. util_compare (name a) (name b) = - 1) ?s"
    by (rule sorted_wrt_mono_rel[rotated]) (simp add: util_compare_sign)
  have B: "util_compare a (a @ c # cs) = - 1 \<and> util_compare (a @ c # cs) a = 1" for a c cs
  proof -
    have "Buffer_from a < Buffer_from (a @ c # cs)"
      using prefix_less[of "Buffer_from a" "of_char c" "Buffer_from cs"]
      by (simp add: Buffer_from_def)
    then show ?thesis by (simp add: util_compare_sign)
  qed
  have o: "Reserved d = Inr ?t" by (rule encoded_facts(1)[OF assms(3)])
  have C1: "Reserved_compare False ?t (Buffer_from q) (offset ?t + m * indexSize ?t + 1)
              = Inr (util_compare (name (?s ! m)) q)" if "m < length items" for m q
  proof -
    from that len have m: "m < length ?s" by simp
    from encoded_facts(3)[OF assms(3), of False "Buffer_from q"] m
    have "Reserved_compare False ?t (Buffer_from q) (offset ?t + m * indexSize ?t + 1)
            = Inr (Buffer_compare (keys ?s ! m) (Buffer_from q))" by blast
    then show ?thesis using m by (simp add: keys_def util_compare_bytes)
  qed
  have C2: "Reserved_get False ?t (name r)
              = Some (Inr (Some \<lparr>e_target = target r, e_value = resolve nv rv r, e_root = root r\<rparr>))"
    if "r \<in> set items" for r
  proof -
    from that se have "r \<in> set ?s" by simp
    then obtain j where j: "j < length ?s" and r: "?s ! j = r"
      by (auto simp: in_set_conv_nth)
    have ne: "name (?s ! j) \<noteq> []" using assms(2) that r by simp
    have "\<forall>c\<in>set (target r). (of_char c :: nat) < 128" using assms(2) that by simp
    then have a: "map (\<lambda>b. char_of (b mod 128)) (Buffer_from (target r)) = target r"
      by (rule ascii_roundtrip)
    from get_present(1)[OF assms(3) st j ne, of False] r a show ?thesis by simp
  qed
  have D: "sort_by sortAlpha items' = ?s"
    if "distinct (map name items') \<and> set items' = set items" for items'
    unfolding e by (rule sort_key_perm) (use that assms(1) in \<open>simp_all add: distinct_keys\<close>)
  from A B o C1 C2 D show ?thesis by blast
qed

theorem sorted_index_binary_search_witness:
  "sort_by sortAlpha [com, co] = [co, com]
   \<and> sort_by sortAlpha [co, com] = [co, com]
   \<and> generateRaw 1000 2000 (sort_by sortAlpha [com, co]) = Inr prefix_bytes
   \<and> util_compare ''co'' ''com'' = - 1
   \<and> (\<exists>t. Reserved prefix_bytes = Inr t
         \<and> Reserved_get False t ''co''
             = Some (Inr (Some \<lparr>e_target = ''co.'', e_value = 2000, e_root = True\<rparr>))
         \<and> Reserved_get False t ''com''
             = Some (Inr (Some \<lparr>e_target = ''com.'', e_value = 2000, e_root = True\<rparr>)))"
proof -
  have h1: "distinct (map name [com, co])" by (simp add: com_def co_def)
  have h2: "\<forall>it\<in>set [com, co]. name it \<noteq> [] \<and> (\<forall>c\<in>set (target it). (of_char c :: nat) < 128)"
    by (simp add: com_def co_def)
  have h3: "generateRaw 1000 2000 (sort_by sortAlpha [com, co]) = Inr prefix_bytes"
    unfolding prefix_sort by (rule prefix_encoded)
  note th = sorted_index_binary_search[OF h1 h2 h3]
  from th have cmp: "util_compare ''co'' (''co'' @ CHR ''m'' # []) = - 1" by blast
  from th obtain t where t: "Reserved prefix_bytes = Inr t"
    and g: "\<forall>r\<in>set [com, co]. Reserved_get False t (name r)
              = Some (Inr (Some \<lparr>e_target = target r, e_value = resolve 1000 2000 r,
                                 e_root = root r\<rparr>))"
    by blast
  from th have p: "\<forall>items'. distinct (map name items') \<and> set items' = set [com, co] \<longrightarrow>
            sort_by sortAlpha items' = sort_by sortAlpha [com, co]" by blast
  have "sort_by sortAlpha [co, com] = sort_by sortAlpha [com, co]"
    by (rule p[rule_format]) (auto simp: com_def co_def)
  then have s2: "sort_by sortAlpha [co, com] = [co, com]" by (simp add: prefix_sort)
  have g1: "Reserved_get False t ''co''
             = Some (Inr (Some \<lparr>e_target = ''co.'', e_value = 2000, e_root = True\<rparr>))"
    using g by (simp add: co_def resolve_def zeroed_def embargoes_def)
  have g2: "Reserved_get False t ''com''
             = Some (Inr (Some \<lparr>e_target = ''com.'', e_value = 2000, e_root = True\<rparr>))"
    using g by (simp add: com_def resolve_def zeroed_def embargoes_def)
  from prefix_sort s2 h3 cmp t g1 g2 show ?thesis by auto
qed

text \<open>
  C4. The scenario of the specification: the records \<open>com\<close> (root), \<open>bitcoin\<close> and
  \<open>cu\<close> (embargoed, hence zeroed), sorted with \<open>sortAlpha\<close> as \<open>getList\<close> does and
  encoded with the defaults 1000 and 2000. The table returns 2000 for \<open>com\<close>, 1000 for
  \<open>bitcoin\<close>, 0 for \<open>cu\<close>, each with its target and root flag, and \<open>null\<close> for
  \<open>xyz\<close>.
\<close>

theorem scenario_lookups:
  "\<exists>d t. generateRaw 1000 2000 (sort_by sortAlpha [com, bitcoin, cu]) = Inr d
     \<and> Reserved d = Inr t
     \<and> Reserved_get False t ''com''
          = Some (Inr (Some \<lparr>e_target = ''com.'', e_value = 2000, e_root = True\<rparr>))
     \<and> Reserved_get False t ''bitcoin''
          = Some (Inr (Some \<lparr>e_target = ''bitcoin.'', e_value = 1000, e_root = False\<rparr>))
     \<and> Reserved_get False t ''cu''
          = Some (Inr (Some \<lparr>e_target = ''cu.'', e_value = 0, e_root = False\<rparr>))
     \<and> Reserved_get False t ''xyz'' = Some (Inr None)"
proof -
  let ?its = "[bitcoin, com, cu]"
  let ?t = "opened 1000 2000 ?its"
  note enc = scenario_encoded
  have o: "Reserved scenario_bytes = Inr ?t" by (rule encoded_facts(1)[OF enc])
  have asc: "map (\<lambda>b. char_of (b mod 128)) (Buffer_from (target it)) = target it"
    if "it \<in> set ?its" for it
    by (rule ascii_roundtrip) (use that scenario_valid in blast)
  have g0: "Reserved_get False ?t ''bitcoin''
          = Some (Inr (Some \<lparr>e_target = ''bitcoin.'', e_value = 1000, e_root = False\<rparr>))"
    using get_present(1)[OF enc scenario_sorted, of 0 False] asc[of bitcoin]
    by (simp add: bitcoin_def resolve_def zeroed_def embargoes_def)
  have g1: "Reserved_get False ?t ''com''
          = Some (Inr (Some \<lparr>e_target = ''com.'', e_value = 2000, e_root = True\<rparr>))"
    using get_present(1)[OF enc scenario_sorted, of 1 False] asc[of com]
    by (simp add: com_def resolve_def zeroed_def embargoes_def)
  have g2: "Reserved_get False ?t ''cu''
          = Some (Inr (Some \<lparr>e_target = ''cu.'', e_value = 0, e_root = False\<rparr>))"
    using get_present(1)[OF enc scenario_sorted, of 2 False] asc[of cu]
    by (simp add: cu_def resolve_def zeroed_def embargoes_def)
  have "Buffer_from ''xyz'' \<notin> set (keys ?its)"
    by (simp add: keys_def Buffer_from_def com_def bitcoin_def cu_def)
  from get_absent(1)[OF enc this, of False]
  have g3: "Reserved_get False ?t ''xyz'' = Some (Inr None)" .
  show ?thesis unfolding scenario_sort using enc o g0 g1 g2 g3 by blast
qed

text \<open>
  C5, as amended. In the hash table the payload of every record whose target contains a
  separator stores, in one byte, the position of the first separator of the target, and
  \<open>get\<close> on the record's hash returns the target and, as name, the target cut at that
  position, whatever the record's name is. The name returned is the record's name whenever
  the target is the name, a separator and the rest of the domain, and the name itself
  contains no separator. The hashes are 32 bytes long and unique, the record's target
  ASCII.
\<close>

theorem hash_lookup_recovers_name:
  assumes "generateRawHash nv rv items = Inr d"
    and "distinct (map hash items)"
    and "\<forall>it\<in>set items. length (hash it) = 32"
    and "r \<in> set items"
    and "\<forall>c\<in>set (target r). (of_char c :: nat) < 128"
    and "CHR ''.'' \<in> set (target r)"
  shows "\<exists>t pos e. Hashed d = Inr t
           \<and> Hashed_find t (hash r) = Some (Inr (int pos))
           \<and> Hashed_index t pos = Some (nat (indexOf (target r) (CHR ''.'')))
           \<and> 0 \<le> indexOf (target r) (CHR ''.'')
           \<and> nat (indexOf (target r) (CHR ''.'')) < length (target r)
           \<and> target r ! nat (indexOf (target r) (CHR ''.'')) = CHR ''.''
           \<and> CHR ''.'' \<notin> set (take (nat (indexOf (target r) (CHR ''.''))) (target r))
           \<and> Hashed_get t (hash r) = Some (Inr (Some e))
           \<and> h_target e = target r
           \<and> h_name e = take (nat (indexOf (target r) (CHR ''.''))) (target r)
           \<and> (\<forall>rest. target r = name r @ CHR ''.'' # rest \<and> CHR ''.'' \<notin> set (name r)
                  \<longrightarrow> h_name e = name r)"
proof -
  let ?t = "hopened nv rv (sort_by sortHash items)"
  let ?i = "indexOf (target r) (CHR ''.'')"
  note f = hencoded_facts[OF assms(1,3)]
  note g = hget_present[OF assms(1,3,2,4)]
  note ix = indexOf_first[OF assms(6)]
  have "length (target r) \<le> 255" using f(6) assms(4) by blast
  with ix have "0 \<le> ?i" and "?i < 256" by linarith+
  then have m: "nat (?i mod 256) = nat ?i" by simp
  have a: "map (\<lambda>b. char_of (b mod 128)) (Buffer_from (target r)) = target r"
    by (rule ascii_roundtrip[OF assms(5)])
  from g(1) obtain pos where
    p: "Hashed_find ?t (hash r) = Some (Inr (int pos))"
       "Hashed_index ?t pos = Some (nat (?i mod 256))" by blast
  let ?e = "\<lparr>h_name = take (nat ?i) (target r), h_target = target r,
              h_value = resolve nv rv r, h_root = root r\<rparr>"
  have ge: "Hashed_get ?t (hash r) = Some (Inr (Some ?e))"
    using g(2) by (simp add: m a)
  have nm: "take (nat ?i) (target r) = name r"
    if "target r = name r @ CHR ''.'' # rest \<and> CHR ''.'' \<notin> set (name r)" for rest
  proof -
    from that have s: "target r = name r @ CHR ''.'' # rest" and n: "CHR ''.'' \<notin> set (name r)"
      by blast+
    have "?i = int (length (name r))"
      using indexOf_label[OF n, of rest] s by simp
    then show ?thesis using s by simp
  qed
  have "Hashed d = Inr ?t
           \<and> Hashed_find ?t (hash r) = Some (Inr (int pos))
           \<and> Hashed_index ?t pos = Some (nat ?i)
           \<and> 0 \<le> ?i
           \<and> nat ?i < length (target r)
           \<and> target r ! nat ?i = CHR ''.''
           \<and> CHR ''.'' \<notin> set (take (nat ?i) (target r))
           \<and> Hashed_get ?t (hash r) = Some (Inr (Some ?e))
           \<and> h_target ?e = target r
           \<and> h_name ?e = take (nat ?i) (target r)
           \<and> (\<forall>rest. target r = name r @ CHR ''.'' # rest \<and> CHR ''.'' \<notin> set (name r)
                  \<longrightarrow> h_name ?e = name r)"
    using f(1) p ge ix nm unfolding m by simp
  then show ?thesis by blast
qed

theorem hash_lookup_recovers_name_witness:
  "generateRawHash 1000 2000 [hgoogle, hcom] = Inr www_bytes
   \<and> (\<exists>t pos e. Hashed www_bytes = Inr t
           \<and> Hashed_find t (hash hcom) = Some (Inr (int pos))
           \<and> Hashed_index t pos = Some 3
           \<and> Hashed_get t (hash hcom) = Some (Inr (Some e))
           \<and> h_target e = ''com.''
           \<and> h_name e = ''com'')
   \<and> (\<exists>t pos e. Hashed www_bytes = Inr t
           \<and> Hashed_find t (hash hgoogle) = Some (Inr (int pos))
           \<and> Hashed_index t pos = Some 3
           \<and> Hashed_get t (hash hgoogle) = Some (Inr (Some e))
           \<and> h_target e = ''www.google.com.''
           \<and> h_name e = ''www'')"
proof -
  have i1: "indexOf (target hcom) (CHR ''.'') = 3" by (simp add: hcom_def)
  have i2: "indexOf (target hgoogle) (CHR ''.'') = 3" by (simp add: hgoogle_def)
  have m1: "hcom \<in> set [hgoogle, hcom]" and m2: "hgoogle \<in> set [hgoogle, hcom]" by simp_all
  have a1: "\<forall>c\<in>set (target hcom). (of_char c :: nat) < 128" by (simp add: hcom_def)
  have a2: "\<forall>c\<in>set (target hgoogle). (of_char c :: nat) < 128" by (simp add: hgoogle_def)
  have d1: "CHR ''.'' \<in> set (target hcom)" by (simp add: hcom_def)
  have d2: "CHR ''.'' \<in> set (target hgoogle)" by (simp add: hgoogle_def)
  have s1: "target hcom = name hcom @ CHR ''.'' # [] \<and> CHR ''.'' \<notin> set (name hcom)"
    by (simp add: hcom_def)
  from hash_lookup_recovers_name[OF www_encoded www_valid m1 a1 d1]
  obtain t pos e where c: "Hashed www_bytes = Inr t"
    "Hashed_find t (hash hcom) = Some (Inr (int pos))"
    "Hashed_index t pos = Some (nat (indexOf (target hcom) (CHR ''.'')))"
    "Hashed_get t (hash hcom) = Some (Inr (Some e))"
    "h_target e = target hcom"
    "\<forall>rest. target hcom = name hcom @ CHR ''.'' # rest \<and> CHR ''.'' \<notin> set (name hcom)
        \<longrightarrow> h_name e = name hcom" by blast
  from c(6) s1 have "h_name e = name hcom" by blast
  with c have A: "\<exists>t pos e. Hashed www_bytes = Inr t
           \<and> Hashed_find t (hash hcom) = Some (Inr (int pos))
           \<and> Hashed_index t pos = Some 3
           \<and> Hashed_get t (hash hcom) = Some (Inr (Some e))
           \<and> h_target e = ''com.''
           \<and> h_name e = ''com''"
    unfolding i1 by (auto simp: hcom_def)
  from hash_lookup_recovers_name[OF www_encoded www_valid m2 a2 d2]
  obtain t' pos' e' where g: "Hashed www_bytes = Inr t'"
    "Hashed_find t' (hash hgoogle) = Some (Inr (int pos'))"
    "Hashed_index t' pos' = Some (nat (indexOf (target hgoogle) (CHR ''.'')))"
    "Hashed_get t' (hash hgoogle) = Some (Inr (Some e'))"
    "h_target e' = target hgoogle"
    "h_name e' = take (nat (indexOf (target hgoogle) (CHR ''.''))) (target hgoogle)" by blast
  then have B: "\<exists>t pos e. Hashed www_bytes = Inr t
           \<and> Hashed_find t (hash hgoogle) = Some (Inr (int pos))
           \<and> Hashed_index t pos = Some 3
           \<and> Hashed_get t (hash hgoogle) = Some (Inr (Some e))
           \<and> h_target e = ''www.google.com.''
           \<and> h_name e = ''www''"
    unfolding i2 by (auto simp: hgoogle_def)
  from www_encoded A B show ?thesis by blast
qed

text \<open>
  C5 as stated fails for a name with a separator of its own: the target \<open>a.b.c.\<close> is the
  name \<open>a.b\<close>, a separator and the rest \<open>c.\<close>, and \<open>get\<close> on the record's hash returns
  the name \<open>a\<close>.
\<close>

theorem dotted_name_not_recovered:
  "generateRawHash 1000 2000 [hdot] = Inr dot_bytes
   \<and> Hashed dot_bytes = Inr (hopened 1000 2000 [hdot])
   \<and> name hdot = ''a.b''
   \<and> target hdot = name hdot @ CHR ''.'' # ''c.''
   \<and> Hashed_get (hopened 1000 2000 [hdot]) (hash hdot)
        = Some (Inr (Some \<lparr>h_name = ''a'', h_target = ''a.b.c.'', h_value = 1000,
                           h_root = False\<rparr>))
   \<and> ''a'' \<noteq> name hdot"
proof -
  have hl: "\<forall>it\<in>set [hdot]. length (hash it) = 32" by (simp add: hdot_def)
  have ds: "distinct (map hash [hdot])" by simp
  have m: "hdot \<in> set [hdot]" by simp
  have o: "Hashed dot_bytes = Inr (hopened 1000 2000 [hdot])"
    using hencoded_facts(1)[OF dot_encoded hl] unfolding dot_sort .
  have a: "map (\<lambda>b. char_of (b mod 128)) (Buffer_from (target hdot)) = target hdot"
    by (rule ascii_roundtrip) (simp add: hdot_def)
  have i: "indexOf (target hdot) (CHR ''.'') = 1" by (simp add: hdot_def)
  have v: "resolve 1000 2000 hdot = 1000"
    by (simp add: resolve_def zeroed_def embargoes_def hdot_def)
  have g: "Hashed_get (hopened 1000 2000 [hdot]) (hash hdot)
        = Some (Inr (Some \<lparr>h_name = ''a'', h_target = ''a.b.c.'', h_value = 1000,
                           h_root = False\<rparr>))"
    using hget_present(2)[OF dot_encoded hl ds m] unfolding dot_sort a i v
    by (simp add: hdot_def)
  have n: "name hdot = ''a.b''" "target hdot = name hdot @ CHR ''.'' # ''c.''" "''a'' \<noteq> name hdot"
    by (simp_all add: hdot_def)
  from dot_encoded o g n show ?thesis by blast
qed

text \<open>
  C6, as amended. On the name table \<open>get\<close> and \<open>has\<close> with a key of length 0, or longer
  than the stored name capacity, return \<open>null\<close> without an error, whatever the buffer.
  The hash table has no such early return: its lookups assert that the key is a buffer of
  32 bytes, so a key of any other length, 0 included, fails the assertion.
\<close>

theorem key_length_guard:
  "(length nm = 0 \<or> nameSize t < length nm \<longrightarrow>
       Reserved_get chk t nm = Some (Inr None) \<and> Reserved_has chk t nm = Some (Inr None))
   \<and> (length key \<noteq> 32 \<longrightarrow>
       Hashed_get h key = Some (Inl AssertionError) \<and> Hashed_has h key = Some (Inl AssertionError))"
  by (simp add: Reserved_get_def Reserved_has_def Hashed_get_def Hashed_has_def)

theorem key_length_guard_witness:
  "Reserved_get False short_table [] = Some (Inr None)
   \<and> Reserved_has False short_table [] = Some (Inr None)
   \<and> Reserved_get False short_table ''abcd'' = Some (Inr None)
   \<and> Reserved_has False short_table ''abcd'' = Some (Inr None)
   \<and> Hashed_get empty_hashed [1, 2, 3] = Some (Inl AssertionError)
   \<and> Hashed_has empty_hashed [1, 2, 3] = Some (Inl AssertionError)"
  using key_length_guard[of "[]" short_table False "[1, 2, 3]" empty_hashed]
    key_length_guard[of "''abcd''" short_table False "[1, 2, 3]" empty_hashed]
  by (simp add: short_table_def)

text \<open>
  C6 as stated fails for the hash table: on a table without records, \<open>get\<close> with the
  empty key throws the assertion error instead of returning \<open>null\<close>.
\<close>

theorem hashed_empty_key_throws:
  "Hashed (replicate 20 0) = Inr empty_hashed
   \<and> Hashed_get empty_hashed [] = Some (Inl AssertionError)"
  by (simp add: Hashed_def readU32_def readU64_def readUInt32LE_def empty_hashed_def
      js_add_def js_mul_def to_double_def Hashed_get_def nth_replicate)




text \<open>
  C8. On a buffer the encoder produced from a list in strictly ascending name order,
  \<open>get\<close> and \<open>has\<close> are total for every key: the search terminates, nothing is thrown,
  and the result is an entry, a boolean or \<open>null\<close>. The checked reader (\<open>chk = True\<close>),
  in which every indexed read outside the buffer is a fault, returns the same results, so
  no lookup reads outside the buffer.
\<close>

theorem lookup_total:
  assumes "generateRaw nv rv items = Inr d"
    and "sorted_wrt (<) (keys items)"
  shows "\<exists>t. Reserved d = Inr t
           \<and> (\<forall>nm. \<exists>r b. Reserved_get False t nm = Some (Inr r) \<and> Reserved_get True t nm = Some (Inr r)
                      \<and> Reserved_has False t nm = Some (Inr b) \<and> Reserved_has True t nm = Some (Inr b))"
proof -
  let ?t = "opened nv rv items"
  have o: "Reserved d = Inr ?t" by (rule encoded_facts(1)[OF assms(1)])
  have "\<exists>r b. Reserved_get False ?t nm = Some (Inr r) \<and> Reserved_get True ?t nm = Some (Inr r)
                      \<and> Reserved_has False ?t nm = Some (Inr b) \<and> Reserved_has True ?t nm = Some (Inr b)" for nm
  proof -
    from get_total[OF assms, of False nm] obtain r where
      g: "Reserved_get False ?t nm = Some (Inr r)"
      and h: "Reserved_has False ?t nm = Some (Inr (if length nm = 0 \<or> nameSize ?t < length nm
                            then None else Some (r \<noteq> None)))" by blast
    from get_total[OF assms, of True nm] obtain r' where
      g': "Reserved_get True ?t nm = Some (Inr r')"
      and h': "Reserved_has True ?t nm = Some (Inr (if length nm = 0 \<or> nameSize ?t < length nm
                            then None else Some (r' \<noteq> None)))" by blast
    have "r' = r"
    proof (cases "Buffer_from nm \<in> set (keys items)")
      case False
      from get_absent(1)[OF assms(1) False] g g' show ?thesis by simp
    next
      case True
      then obtain j where j: "j < length items" and n: "name (items ! j) = nm"
        using key_present by blast
      show ?thesis
      proof (cases "nm = []")
        case True
        then show ?thesis using g g' by (simp add: Reserved_get_def)
      next
        case False
        then have ne: "name (items ! j) \<noteq> []" using n by simp
        from get_present(1)[OF assms j ne] g g' n show ?thesis by simp
      qed
    qed
    with g g' h h' show ?thesis by blast
  qed
  with o show ?thesis by blast
qed

theorem lookup_total_witness:
  "generateRaw 1000 2000 [bitcoin, com, cu] = Inr scenario_bytes
   \<and> sorted_wrt (<) (keys [bitcoin, com, cu])
   \<and> (\<exists>t. Reserved scenario_bytes = Inr t
           \<and> (\<forall>nm. \<exists>r b. Reserved_get False t nm = Some (Inr r) \<and> Reserved_get True t nm = Some (Inr r)
                      \<and> Reserved_has False t nm = Some (Inr b) \<and> Reserved_has True t nm = Some (Inr b)))"
  using lookup_total[OF scenario_encoded scenario_sorted] scenario_encoded scenario_sorted
  by blast

text \<open>
  C9. On the name table, for every name of length between 1 and the stored name capacity,
  \<open>has\<close> returns a boolean, and it is \<open>true\<close> exactly when \<open>get\<close> returns an entry. For
  a name of length 0 or longer than the capacity \<open>has\<close> returns \<open>null\<close>, the value
  \<open>get\<close> returns for a missing name, and not \<open>false\<close>.
\<close>

theorem has_agrees_with_get:
  assumes "generateRaw nv rv items = Inr d"
    and "sorted_wrt (<) (keys items)"
  shows "\<exists>t. Reserved d = Inr t
     \<and> (\<forall>nm. 1 \<le> length nm \<and> length nm \<le> nameSize t \<longrightarrow>
           (\<exists>b. Reserved_has False t nm = Some (Inr (Some b))
               \<and> (b \<longleftrightarrow> (\<exists>e. Reserved_get False t nm = Some (Inr (Some e))))))
     \<and> (\<forall>nm. length nm = 0 \<or> nameSize t < length nm \<longrightarrow>
           Reserved_has False t nm = Some (Inr None) \<and> Reserved_get False t nm = Some (Inr None))"
proof -
  let ?t = "opened nv rv items"
  have o: "Reserved d = Inr ?t" by (rule encoded_facts(1)[OF assms(1)])
  have a: "\<exists>b. Reserved_has False ?t nm = Some (Inr (Some b))
               \<and> (b \<longleftrightarrow> (\<exists>e. Reserved_get False ?t nm = Some (Inr (Some e))))"
    if "1 \<le> length nm \<and> length nm \<le> nameSize ?t" for nm
  proof -
    from get_total[OF assms, of False nm] obtain r where
      g: "Reserved_get False ?t nm = Some (Inr r)"
      and h: "Reserved_has False ?t nm = Some (Inr (if length nm = 0 \<or> nameSize ?t < length nm
                            then None else Some (r \<noteq> None)))" by blast
    from that have "\<not> (length nm = 0 \<or> nameSize ?t < length nm)" by auto
    with h have "Reserved_has False ?t nm = Some (Inr (Some (r \<noteq> None)))" by simp
    moreover have "(r \<noteq> None) \<longleftrightarrow> (\<exists>e. Reserved_get False ?t nm = Some (Inr (Some e)))"
      using g by auto
    ultimately show ?thesis by blast
  qed
  have b: "Reserved_has False ?t nm = Some (Inr None) \<and> Reserved_get False ?t nm = Some (Inr None)"
    if "length nm = 0 \<or> nameSize ?t < length nm" for nm
    using that by (simp add: Reserved_get_def Reserved_has_def)
  from o a b show ?thesis by blast
qed

theorem has_agrees_with_get_witness:
  "generateRaw 1000 2000 [bitcoin, com, cu] = Inr scenario_bytes
   \<and> sorted_wrt (<) (keys [bitcoin, com, cu])
   \<and> (\<exists>t. Reserved scenario_bytes = Inr t
     \<and> (\<forall>nm. 1 \<le> length nm \<and> length nm \<le> nameSize t \<longrightarrow>
           (\<exists>b. Reserved_has False t nm = Some (Inr (Some b))
               \<and> (b \<longleftrightarrow> (\<exists>e. Reserved_get False t nm = Some (Inr (Some e))))))
     \<and> (\<forall>nm. length nm = 0 \<or> nameSize t < length nm \<longrightarrow>
           Reserved_has False t nm = Some (Inr None) \<and> Reserved_get False t nm = Some (Inr None)))"
  using has_agrees_with_get[OF scenario_encoded scenario_sorted] scenario_encoded scenario_sorted
  by blast

text \<open>
  C10. \<open>readU64\<close> computes \<open>hi * 0x100000000 + lo\<close> in double precision. What
  \<open>writeU64\<close> wrote is read back exactly, and so is every stored field below \<open>2^53\<close>;
  the field \<open>2^53 + 1\<close> is read as \<open>2^53\<close>, so a value from \<open>2^53\<close> on need not
  survive.
\<close>

theorem u64_roundtrip:
  "(writeU64 v bw = Inr bw' \<longrightarrow> readU64 (bw' @ post) (length bw) = Inr v)
   \<and> (v < 9007199254740992 \<longrightarrow> readU64 (pre @ le_bytes 8 v @ post) (length pre) = Inr v)
   \<and> readU64 (pre @ le_bytes 8 9007199254740993 @ post) (length pre) = Inr 9007199254740992"
proof -
  have a: "readU64 (bw' @ post) (length bw) = Inr v" if "writeU64 v bw = Inr bw'"
  proof -
    from that have s: "v \<le> 9007199254740991" and b: "bw' = bw @ le_bytes 8 v"
      by (auto simp: writeU64_def safe_def put_def split: if_splits)
    from readU64_mid[OF s, of bw post] b show ?thesis by simp
  qed
  have b: "readU64 (pre @ le_bytes 8 v @ post) (length pre) = Inr v" if "v < 9007199254740992"
    by (rule readU64_mid) (use that in simp)
  have "js_add (js_mul (9007199254740993 div 4294967296 mod 4294967296) 4294967296)
          (9007199254740993 mod 4294967296) = 9007199254740992"
    by (simp add: js_add_def js_mul_def double_2_53 double_2_53_1)
  then have c: "readU64 (pre @ le_bytes 8 9007199254740993 @ post) (length pre) = Inr 9007199254740992"
    using readU64_le_bytes[of pre 9007199254740993 post] by simp
  from a b c show ?thesis by blast
qed

theorem u64_roundtrip_witness:
  "writeU64 1000 [] = Inr [232, 3, 0, 0, 0, 0, 0, 0]
   \<and> readU64 [232, 3, 0, 0, 0, 0, 0, 0] 0 = Inr 1000
   \<and> readU64 [1, 0, 0, 0, 0, 0, 32, 0] 0 = Inr 9007199254740992"
proof -
  have w: "writeU64 1000 [] = Inr [232, 3, 0, 0, 0, 0, 0, 0]"
    by (simp add: writeU64_def safe_def put_def CAPACITY_def le_bytes_numeral le_bytes_1)
  have l: "le_bytes 8 9007199254740993 = [1, 0, 0, 0, 0, 0, 32, 0]"
    by (simp add: le_bytes_numeral le_bytes_1)
  from u64_roundtrip[of 1000 "[]" "[232, 3, 0, 0, 0, 0, 0, 0]" "[]" "[]"] w l
  show ?thesis by simp
qed

end
